theory Spec2Isabelle
  imports Complex_Main "HOL-Library.Word"
begin

unbundle bit_operations_syntax

chapter \<open>The request-dispatch core of ai-studio-ext\<close>

text \<open>
  A shallow embedding of \<^verbatim>\<open>src/api/auth.ts\<close> (hash generator, token derivation) and of
  \<^verbatim>\<open>new-prompt.ts\<close> (credential discovery, retry loop, prompt conversion).

  Conventions. A JavaScript string is the list of its UTF-16 code units; the model covers
  strings whose code units are below 256, so a string is a \<^typ>\<open>string\<close>. The numbers the
  hash generator keeps in \<^verbatim>\<open>hashValues\<close> and \<^verbatim>\<open>wordArray\<close> are results of
  \<^verbatim>\<open>& 0xffffffff\<close>, \<^verbatim>\<open><<\<close>, \<^verbatim>\<open>|\<close>, \<^verbatim>\<open>^\<close> (each applies ToInt32) or sums of at most five
  such values (exact in a double), so they are 32-bit words; bytes are 8-bit words.
  \<^verbatim>\<open>totalLength\<close> is a natural number (exact in a double below \<open>2^53\<close>).
\<close>

section \<open>Hash generator (auth.ts, createHashGenerator)\<close>

type_synonym byte = "8 word"
type_synonym u32 = "32 word"
type_synonym hv = "u32 \<times> u32 \<times> u32 \<times> u32 \<times> u32"

text \<open>
  Reading a JavaScript array past its end gives \<^verbatim>\<open>undefined\<close>, which the bit operators
  read as 0; writing at or past its end extends it (holes read as \<^verbatim>\<open>undefined\<close>).
\<close>

definition jsGet :: "byte list \<Rightarrow> nat \<Rightarrow> byte" where
  "jsGet xs i = (if i < length xs then xs ! i else 0)"

definition jsSet :: "byte list \<Rightarrow> nat \<Rightarrow> byte \<Rightarrow> byte list" where
  "jsSet xs i v =
     (if i < length xs then xs[i := v] else xs @ replicate (i - length xs) 0 @ [v])"

text \<open>\<^verbatim>\<open>data.slice(a, b)\<close> for \<open>0 \<le> a \<le> b\<close>.\<close>

definition slice :: "byte list \<Rightarrow> nat \<Rightarrow> nat \<Rightarrow> byte list" where
  "slice xs a b = take (b - a) (drop a xs)"

record hashGenerator =
  hashValues :: hv
  messageBuffer :: "byte list"
  bufferPos :: nat
  totalLength :: nat

text \<open>\<^verbatim>\<open>reset()\<close>, run once by \<^verbatim>\<open>createHashGenerator\<close> on an empty \<^verbatim>\<open>messageBuffer\<close>.\<close>

definition initialHash :: hv where
  "initialHash = (1732584193, 4023233417, 2562383102, 271733878, 3285377520)"

definition reset :: "hashGenerator \<Rightarrow> hashGenerator" where
  "reset g = g\<lparr>hashValues := initialHash, bufferPos := 0, totalLength := 0\<rparr>"

definition createHashGenerator :: hashGenerator where
  "createHashGenerator =
     reset \<lparr>hashValues = initialHash, messageBuffer = [], bufferPos = 0, totalLength = 0\<rparr>"

definition padding :: "byte list" where
  "padding = 128 # replicate 63 0"

subsection \<open>processBlock\<close>

text \<open>
  \<^verbatim>\<open>(block[i] << 24) | (block[i + 1] << 16) | (block[i + 2] << 8) | block[i + 3]\<close>
\<close>

definition packWord :: "byte list \<Rightarrow> nat \<Rightarrow> u32" where
  "packWord block i =
     push_bit 24 (ucast (jsGet block i)) OR push_bit 16 (ucast (jsGet block (i + 1)))
       OR push_bit 8 (ucast (jsGet block (i + 2))) OR ucast (jsGet block (i + 3))"

text \<open>
  \<^verbatim>\<open>wordArray\<close> is scratch space of the closure: \<^verbatim>\<open>processBlock\<close> writes entry \<open>i\<close>
  before any read of it, so the model builds it afresh, entry \<open>i\<close> being appended when
  the array has \<open>i\<close> entries. First loop: \<^verbatim>\<open>for (i = 0; i < 64; i += 4)\<close>.
\<close>

function loadWords :: "byte list \<Rightarrow> nat \<Rightarrow> u32 list \<Rightarrow> u32 list" where
  "loadWords block i wordArray =
     (if i < 64 then loadWords block (i + 4) (wordArray @ [packWord block i]) else wordArray)"
  by pat_completeness auto
termination
  by (relation "measure (\<lambda>(block, i, wordArray). 64 - i)") auto

text \<open>\<^verbatim>\<open>((w << n) | (w >>> (32 - n))) & 0xffffffff\<close>, for \<open>n\<close> = 1, 5, 30.\<close>

definition rotl :: "nat \<Rightarrow> u32 \<Rightarrow> u32" where
  "rotl n w = push_bit n w OR drop_bit (32 - n) w"

definition scheduleWord :: "u32 list \<Rightarrow> nat \<Rightarrow> u32" where
  "scheduleWord wordArray i =
     rotl 1 (wordArray ! (i - 3) XOR wordArray ! (i - 8) XOR wordArray ! (i - 14)
               XOR wordArray ! (i - 16))"

text \<open>Second loop: \<^verbatim>\<open>for (i = 16; i < 80; i++)\<close>.\<close>

function expandSchedule :: "nat \<Rightarrow> u32 list \<Rightarrow> u32 list" where
  "expandSchedule i wordArray =
     (if i < 80 then expandSchedule (i + 1) (wordArray @ [scheduleWord wordArray i])
      else wordArray)"
  by pat_completeness auto
termination
  by (relation "measure (\<lambda>(i, wordArray). 80 - i)") auto

definition roundF :: "nat \<Rightarrow> u32 \<Rightarrow> u32 \<Rightarrow> u32 \<Rightarrow> u32" where
  "roundF i b c d =
     (if i < 20 then (b AND c) OR (NOT b AND d)
      else if i < 40 then b XOR c XOR d
      else if i < 60 then (b AND c) OR (d AND (b OR c))
      else b XOR c XOR d)"

definition roundK :: "nat \<Rightarrow> u32" where
  "roundK i =
     (if i < 20 then 1518500249
      else if i < 40 then 1859775393
      else if i < 60 then 2400959708
      else 3395469782)"

text \<open>One pass of the main loop's body: \<^verbatim>\<open>temp\<close>, then the shift of \<open>a..e\<close>.\<close>

fun roundStep :: "u32 list \<Rightarrow> hv \<Rightarrow> nat \<Rightarrow> hv" where
  "roundStep wordArray (a, b, c, d, e) i =
     (rotl 5 a + roundF i b c d + e + roundK i + wordArray ! i, a, rotl 30 b, c, d)"

text \<open>Main loop: \<^verbatim>\<open>for (i = 0; i < 80; i++)\<close>.\<close>

function mainLoop :: "u32 list \<Rightarrow> nat \<Rightarrow> hv \<Rightarrow> hv" where
  "mainLoop wordArray i s =
     (if i < 80 then mainLoop wordArray (i + 1) (roundStep wordArray s i) else s)"
  by pat_completeness auto
termination
  by (relation "measure (\<lambda>(wordArray, i, s). 80 - i)") auto

fun addHash :: "hv \<Rightarrow> hv \<Rightarrow> hv" where
  "addHash (h0, h1, h2, h3, h4) (a, b, c, d, e) = (h0 + a, h1 + b, h2 + c, h3 + d, h4 + e)"

definition processBlock :: "byte list \<Rightarrow> hv \<Rightarrow> hv" where
  "processBlock block h =
     addHash h (mainLoop (expandSchedule 16 (loadWords block 0 [])) 0 h)"

subsection \<open>update\<close>

datatype hashInput = Text string | Bytes "byte list"

text \<open>
  \<^verbatim>\<open>unescape(encodeURIComponent(data))\<close> followed by \<^verbatim>\<open>charCodeAt\<close>: the UTF-8 bytes of
  the string. A code unit below 128 is one byte, one from 128 to 255 is two.
\<close>

definition utf8Char :: "char \<Rightarrow> byte list" where
  "utf8Char c =
     (if (of_char c :: nat) < 128 then [of_nat (of_char c)]
      else [of_nat (192 + of_char c div 64), of_nat (128 + of_char c mod 64)])"

definition toBytes :: "hashInput \<Rightarrow> byte list" where
  "toBytes input = (case input of Text s \<Rightarrow> concat (map utf8Char s) | Bytes bs \<Rightarrow> bs)"

definition absorbBlock :: "byte list \<Rightarrow> hashGenerator \<Rightarrow> hashGenerator" where
  "absorbBlock block g =
     g\<lparr>hashValues := processBlock block (hashValues g), totalLength := totalLength g + 64\<rparr>"

text \<open>
  \<^verbatim>\<open>while (dataPos + 64 < length) { processBlock(data.slice(dataPos, dataPos + 64));
  dataPos += 64; totalLength += 64; }\<close>, returning the final \<^verbatim>\<open>dataPos\<close> too.
\<close>

function processFullBlocks ::
  "byte list \<Rightarrow> nat \<Rightarrow> nat \<Rightarrow> hashGenerator \<Rightarrow> nat \<times> hashGenerator" where
  "processFullBlocks data len dataPos g =
     (if dataPos + 64 < len
      then processFullBlocks data len (dataPos + 64)
             (absorbBlock (slice data dataPos (dataPos + 64)) g)
      else (dataPos, g))"
  by pat_completeness auto
termination
  by (relation "measure (\<lambda>(data, len, dataPos, g). len - dataPos)") auto

text \<open>\<^verbatim>\<open>messageBuffer[bufferPos++] = data[dataPos]; totalLength++\<close>\<close>

definition pushByte :: "byte \<Rightarrow> hashGenerator \<Rightarrow> hashGenerator" where
  "pushByte v g =
     g\<lparr>messageBuffer := jsSet (messageBuffer g) (bufferPos g) v,
       bufferPos := bufferPos g + 1, totalLength := totalLength g + 1\<rparr>"

text \<open>\<^verbatim>\<open>processBlock(messageBuffer); bufferPos = 0\<close>\<close>

definition flushBuffer :: "hashGenerator \<Rightarrow> hashGenerator" where
  "flushBuffer g =
     g\<lparr>hashValues := processBlock (messageBuffer g) (hashValues g), bufferPos := 0\<rparr>"

lemma processFullBlocks_pos:
  "processFullBlocks data len dataPos g = (p, g') \<Longrightarrow> dataPos \<le> p"
proof (induction data len dataPos g rule: processFullBlocks.induct)
  case (1 data len dataPos g)
  show ?case
  proof (cases "dataPos + 64 < len")
    case True
    with "1.prems" have "processFullBlocks data len (dataPos + 64)
        (absorbBlock (slice data dataPos (dataPos + 64)) g) = (p, g')"
      by simp
    with "1.IH" True show ?thesis by fastforce
  next
    case False
    with "1.prems" show ?thesis by simp
  qed
qed

text \<open>
  The second loop of \<^verbatim>\<open>update\<close>: \<^verbatim>\<open>while (dataPos < length)\<close>, one byte into the buffer,
  and when the buffer is full a block is processed and whole blocks are taken from the
  data directly.
\<close>

function fillBuffer :: "byte list \<Rightarrow> nat \<Rightarrow> nat \<Rightarrow> hashGenerator \<Rightarrow> hashGenerator" where
  "fillBuffer data len dataPos g =
     (if dataPos < len then
        (if bufferPos (pushByte (jsGet data dataPos) g) = 64
         then (case processFullBlocks data len (dataPos + 1)
                      (flushBuffer (pushByte (jsGet data dataPos) g)) of
                 (p, g') \<Rightarrow> fillBuffer data len p g')
         else fillBuffer data len (dataPos + 1) (pushByte (jsGet data dataPos) g))
      else g)"
  by pat_completeness auto
termination
proof (relation "measure (\<lambda>(data, len, dataPos, g). len - dataPos)", goal_cases)
  case 1
  show ?case by simp
next
  case (2 data len dataPos g p g')
  from 2(3) have "dataPos + 1 \<le> p"
    using processFullBlocks_pos [of data len "dataPos + 1" _ p g'] by simp
  with 2(1) show ?case by simp
next
  case 3
  then show ?case by simp
qed

text \<open>\<^verbatim>\<open>const length = dataLength || data.length\<close>: an absent or zero \<^verbatim>\<open>dataLength\<close> is falsy.\<close>

definition effectiveLength :: "byte list \<Rightarrow> nat option \<Rightarrow> nat" where
  "effectiveLength data dataLength =
     (case dataLength of None \<Rightarrow> length data
      | Some n \<Rightarrow> if n = 0 then length data else n)"

definition update :: "hashInput \<Rightarrow> nat option \<Rightarrow> hashGenerator \<Rightarrow> hashGenerator" where
  "update input dataLength g =
     (if bufferPos g = 0
      then (case processFullBlocks (toBytes input)
                    (effectiveLength (toBytes input) dataLength) 0 g of
              (p, g') \<Rightarrow>
                fillBuffer (toBytes input) (effectiveLength (toBytes input) dataLength) p g')
      else fillBuffer (toBytes input) (effectiveLength (toBytes input) dataLength) 0 g)"

subsection \<open>digest and getHash\<close>

text \<open>
  \<^verbatim>\<open>bitLength & 0xff\<close> is the low byte of ToInt32 of the number, and
  \<^verbatim>\<open>bitLength >>>= 8\<close> shifts ToUint32 of the number: both reduce it modulo \<open>2^32\<close>.
\<close>

definition lowByte :: "nat \<Rightarrow> byte" where
  "lowByte bitLength = of_nat ((bitLength mod 2 ^ 32) mod 256)"

definition ushr8 :: "nat \<Rightarrow> nat" where
  "ushr8 bitLength = (bitLength mod 2 ^ 32) div 2 ^ 8"

text \<open>
  \<^verbatim>\<open>for (let i = 63; i >= 56; i--) { messageBuffer[i] = bitLength & 0xff; bitLength >>>= 8; }\<close>
\<close>

function appendLength :: "nat \<Rightarrow> nat \<Rightarrow> byte list \<Rightarrow> byte list" where
  "appendLength i bitLength buf =
     (if 56 \<le> i then appendLength (i - 1) (ushr8 bitLength) (jsSet buf i (lowByte bitLength))
      else buf)"
  by pat_completeness auto
termination
  by (relation "measure (\<lambda>(i, bitLength, buf). i)") auto

text \<open>\<^verbatim>\<open>(hashValues[i] >> k) & 0xff\<close> for \<open>k\<close> = 24, 16, 8, 0.\<close>

definition wordBytes :: "u32 \<Rightarrow> byte list" where
  "wordBytes h =
     [ucast (signed_drop_bit 24 h AND 255), ucast (signed_drop_bit 16 h AND 255),
      ucast (signed_drop_bit 8 h AND 255), ucast (signed_drop_bit 0 h AND 255)]"

fun hashBytes :: "hv \<Rightarrow> byte list" where
  "hashBytes (h0, h1, h2, h3, h4) =
     wordBytes h0 @ wordBytes h1 @ wordBytes h2 @ wordBytes h3 @ wordBytes h4"

definition appendPadding :: "hashGenerator \<Rightarrow> hashGenerator" where
  "appendPadding g =
     (if bufferPos g < 56 then update (Bytes padding) (Some (56 - bufferPos g)) g
      else update (Bytes padding) (Some (64 - (bufferPos g - 56))) g)"

definition finalize :: "nat \<Rightarrow> hashGenerator \<Rightarrow> hashGenerator" where
  "finalize bitLength g =
     g\<lparr>messageBuffer := appendLength 63 bitLength (messageBuffer g),
       hashValues :=
         processBlock (appendLength 63 bitLength (messageBuffer g)) (hashValues g)\<rparr>"

text \<open>
  \<^verbatim>\<open>digest()\<close>: \<^verbatim>\<open>bitLength\<close> is read before the padding is appended; the result is
  the byte array and the generator as the call leaves it.
\<close>

definition digest :: "hashGenerator \<Rightarrow> byte list \<times> hashGenerator" where
  "digest g =
     (hashBytes (hashValues (finalize (totalLength g * 8) (appendPadding g))),
      finalize (totalLength g * 8) (appendPadding g))"

definition hexDigits :: string where
  "hexDigits = ''0123456789ABCDEF''"

text \<open>
  \<^verbatim>\<open>"0123456789ABCDEF".charAt(Math.floor(bytes[i] / 16)) +
  "0123456789ABCDEF".charAt(bytes[i] % 16)\<close>
\<close>

definition hexByte :: "byte \<Rightarrow> string" where
  "hexByte b = [hexDigits ! (unat b div 16), hexDigits ! (unat b mod 16)]"

definition getHashHex :: "hashGenerator \<Rightarrow> string \<times> hashGenerator" where
  "getHashHex g = (concat (map hexByte (fst (digest g))), snd (digest g))"

text \<open>The interface object names \<^verbatim>\<open>getHashHex\<close> as \<^verbatim>\<open>getHash\<close>.\<close>

definition getHash :: "hashGenerator \<Rightarrow> string" where
  "getHash g = fst (getHashHex g)"

text \<open>\<^verbatim>\<open>String.prototype.toLowerCase\<close> on code units below 256.\<close>

definition toLowerChar :: "char \<Rightarrow> char" where
  "toLowerChar c =
     (let n = (of_char c :: nat) in
      if (65 \<le> n \<and> n \<le> 90) \<or> (192 \<le> n \<and> n \<le> 222 \<and> n \<noteq> 215)
      then char_of (n + 32) else c)"

definition toLowerCase :: "string \<Rightarrow> string" where
  "toLowerCase s = map toLowerChar s"

definition calculateHash :: "string \<Rightarrow> string" where
  "calculateHash input = toLowerCase (getHash (update (Text input) None createHashGenerator))"

section \<open>SHA-1 as the standard states it (FIPS 180-4)\<close>

text \<open>
  A second definition, from the text of the standard and not from the code: padding
  (5.1.1), parsing into 512-bit blocks of sixteen big-endian words (5.2.1), the functions
  and constants (4.1.1, 4.2.1), the initial hash value (5.3.1) and the hash computation
  (6.1.2).
\<close>

definition sha1_be64 :: "nat \<Rightarrow> byte list" where
  "sha1_be64 n = map (\<lambda>i. of_nat (n div 256 ^ (7 - i))) [0..<8]"

definition sha1_pad :: "byte list \<Rightarrow> byte list" where
  "sha1_pad m =
     m @ [128] @ replicate ((119 - length m mod 64) mod 64) 0 @ sha1_be64 (8 * length m)"

function sha1_blocks :: "byte list \<Rightarrow> byte list list" where
  "sha1_blocks xs = (if length xs < 64 then [] else take 64 xs # sha1_blocks (drop 64 xs))"
  by pat_completeness auto
termination
  by (relation "measure length") auto

definition sha1_M :: "byte list \<Rightarrow> nat \<Rightarrow> u32" where
  "sha1_M block t =
     ucast (block ! (4 * t)) * 2 ^ 24 + ucast (block ! (4 * t + 1)) * 2 ^ 16
       + ucast (block ! (4 * t + 2)) * 2 ^ 8 + ucast (block ! (4 * t + 3))"

function sha1_W :: "byte list \<Rightarrow> nat \<Rightarrow> u32" where
  "sha1_W block t =
     (if t < 16 then sha1_M block t
      else word_rotl 1 (sha1_W block (t - 3) XOR sha1_W block (t - 8)
             XOR sha1_W block (t - 14) XOR sha1_W block (t - 16)))"
  by pat_completeness auto
termination
  by (relation "measure (\<lambda>(block, t). t)") auto

definition sha1_Ch :: "u32 \<Rightarrow> u32 \<Rightarrow> u32 \<Rightarrow> u32" where
  "sha1_Ch x y z = (x AND y) XOR (NOT x AND z)"

definition sha1_Parity :: "u32 \<Rightarrow> u32 \<Rightarrow> u32 \<Rightarrow> u32" where
  "sha1_Parity x y z = x XOR y XOR z"

definition sha1_Maj :: "u32 \<Rightarrow> u32 \<Rightarrow> u32 \<Rightarrow> u32" where
  "sha1_Maj x y z = (x AND y) XOR (x AND z) XOR (y AND z)"

definition sha1_f :: "nat \<Rightarrow> u32 \<Rightarrow> u32 \<Rightarrow> u32 \<Rightarrow> u32" where
  "sha1_f t x y z =
     (if t \<le> 19 then sha1_Ch x y z
      else if t \<le> 39 then sha1_Parity x y z
      else if t \<le> 59 then sha1_Maj x y z
      else sha1_Parity x y z)"

definition sha1_K :: "nat \<Rightarrow> u32" where
  "sha1_K t =
     (if t \<le> 19 then 0x5a827999
      else if t \<le> 39 then 0x6ed9eba1
      else if t \<le> 59 then 0x8f1bbcdc
      else 0xca62c1d6)"

fun sha1_step :: "byte list \<Rightarrow> hv \<Rightarrow> nat \<Rightarrow> hv" where
  "sha1_step block (a, b, c, d, e) t =
     (word_rotl 5 a + sha1_f t b c d + e + sha1_K t + sha1_W block t,
      a, word_rotl 30 b, c, d)"

fun sha1_compress :: "hv \<Rightarrow> byte list \<Rightarrow> hv" where
  "sha1_compress (h0, h1, h2, h3, h4) block =
     (case foldl (sha1_step block) (h0, h1, h2, h3, h4) [0..<80] of
        (a, b, c, d, e) \<Rightarrow> (a + h0, b + h1, c + h2, d + h3, e + h4))"

definition sha1_H0 :: hv where
  "sha1_H0 = (0x67452301, 0xefcdab89, 0x98badcfe, 0x10325476, 0xc3d2e1f0)"

definition sha1_be32 :: "u32 \<Rightarrow> byte list" where
  "sha1_be32 w = map (\<lambda>i. of_nat (unat w div 256 ^ (3 - i))) [0..<4]"

fun sha1_output :: "hv \<Rightarrow> byte list" where
  "sha1_output (h0, h1, h2, h3, h4) =
     sha1_be32 h0 @ sha1_be32 h1 @ sha1_be32 h2 @ sha1_be32 h3 @ sha1_be32 h4"

definition sha1 :: "byte list \<Rightarrow> byte list" where
  "sha1 m = sha1_output (foldl sha1_compress sha1_H0 (sha1_blocks (sha1_pad m)))"

section \<open>The hash generator computes SHA-1\<close>

subsection \<open>processBlock is the compression function of the standard\<close>

lemma rotl_word_rotl:
  assumes "n < 32"
  shows "rotl n w = word_rotl n w"
proof (rule bit_word_eqI)
  fix k
  assume "k < LENGTH(32)"
  then have k: "k < 32" by simp
  show "bit (rotl n w) k = bit (word_rotl n w) k"
  proof (cases "n \<le> k")
    case True
    then have "(k + 32 - n) mod 32 = k - n"
      using k by (simp add: Nat.add_diff_assoc2 mod_if)
    with True k assms show ?thesis
      by (auto simp add: rotl_def bit_simps dest: bit_imp_le_length)
  next
    case False
    then have "(k + 32 - n) mod 32 = k + 32 - n" "32 - n + k = k + 32 - n"
      using k assms by simp_all
    with False k assms show ?thesis
      by (auto simp add: rotl_def bit_simps)
  qed
qed

lemma packWord_arith:
  "packWord block i =
     ucast (jsGet block i) * 2 ^ 24 + ucast (jsGet block (i + 1)) * 2 ^ 16
       + ucast (jsGet block (i + 2)) * 2 ^ 8 + ucast (jsGet block (i + 3))"
proof -
  have "packWord block i =
      push_bit 24 (ucast (jsGet block i)) + (push_bit 16 (ucast (jsGet block (i + 1)))
        + (push_bit 8 (ucast (jsGet block (i + 2))) + ucast (jsGet block (i + 3))))"
    unfolding packWord_def
    apply (subst disjunctive_add [symmetric])
     apply (auto simp add: bit_simps dest: bit_imp_le_length)[1]
    apply (subst disjunctive_add [symmetric])
     apply (auto simp add: bit_simps dest: bit_imp_le_length)[1]
    apply (subst disjunctive_add [symmetric])
     apply (auto simp add: bit_simps dest: bit_imp_le_length)[1]
    apply simp
    done
  then show ?thesis by (simp add: push_bit_eq_mult)
qed

lemma packWord_sha1_M:
  "4 * t + 3 < length block \<Longrightarrow> packWord block (4 * t) = sha1_M block t"
  by (simp add: packWord_arith sha1_M_def jsGet_def)

lemma roundF_sha1_f: "roundF t b c d = sha1_f t b c d"
  unfolding roundF_def sha1_f_def sha1_Ch_def sha1_Parity_def sha1_Maj_def
  by (auto intro!: bit_word_eqI simp add: bit_simps)

lemma roundK_sha1_K: "roundK t = sha1_K t"
  unfolding roundK_def sha1_K_def by auto

lemma loadWords_length:
  "i mod 4 = 0 \<Longrightarrow> i \<le> 64 \<Longrightarrow> length ws = i div 4 \<Longrightarrow> length (loadWords block i ws) = 16"
proof (induction block i ws rule: loadWords.induct)
  case (1 block i wordArray)
  show ?case
  proof (cases "i < 64")
    case True
    have "i + 4 \<le> 64" using True "1.prems"(1) by presburger
    with True 1 show ?thesis by simp
  next
    case False
    with 1 show ?thesis by simp
  qed
qed

lemma loadWords_nth:
  "i mod 4 = 0 \<Longrightarrow> i \<le> 64 \<Longrightarrow> length ws = i div 4 \<Longrightarrow>
   (\<forall>t < i div 4. ws ! t = packWord block (4 * t)) \<Longrightarrow> t < 16 \<Longrightarrow>
   loadWords block i ws ! t = packWord block (4 * t)"
proof (induction block i ws rule: loadWords.induct)
  case (1 block i wordArray)
  show ?case
  proof (cases "i < 64")
    case True
    have le: "i + 4 \<le> 64" using True "1.prems"(1) by presburger
    have i4: "4 * (i div 4) = i" using "1.prems"(1) by presburger
    have "\<forall>t<(i + 4) div 4. (wordArray @ [packWord block i]) ! t = packWord block (4 * t)"
      using "1.prems" i4 by (auto simp add: nth_append less_Suc_eq)
    with True 1 le show ?thesis by simp
  next
    case False
    with 1 show ?thesis by simp
  qed
qed

declare loadWords.simps [simp del] expandSchedule.simps [simp del] mainLoop.simps [simp del]
  sha1_W.simps [simp del]

definition scheduleOk :: "byte list \<Rightarrow> u32 list \<Rightarrow> bool" where
  "scheduleOk block ws = (\<forall>t < length ws. ws ! t = sha1_W block t)"

lemma expandSchedule_sha1_W:
  "16 \<le> i \<Longrightarrow> i \<le> 80 \<Longrightarrow> length ws = i \<Longrightarrow> scheduleOk block ws \<Longrightarrow>
   length (expandSchedule i ws) = 80 \<and> scheduleOk block (expandSchedule i ws)"
proof (induction i ws rule: expandSchedule.induct)
  case (1 i wordArray)
  show ?case
  proof (cases "i < 80")
    case True
    have step: "expandSchedule i wordArray =
        expandSchedule (i + 1) (wordArray @ [scheduleWord wordArray i])"
      using True by (subst expandSchedule.simps) simp
    have w: "scheduleWord wordArray i = sha1_W block i"
      using "1.prems" True
      by (simp add: scheduleWord_def scheduleOk_def sha1_W.simps [of block i] rotl_word_rotl)
    have ok: "scheduleOk block (wordArray @ [scheduleWord wordArray i])"
      using "1.prems" w by (auto simp add: scheduleOk_def nth_append less_Suc_eq)
    have "length (expandSchedule (i + 1) (wordArray @ [scheduleWord wordArray i])) = 80 \<and>
        scheduleOk block (expandSchedule (i + 1) (wordArray @ [scheduleWord wordArray i]))"
      using True "1.prems" by (intro "1.IH" [OF True _ _ _ ok]) simp_all
    then show ?thesis by (simp only: step)
  next
    case False
    then have "expandSchedule i wordArray = wordArray"
      by (subst expandSchedule.simps) simp
    with False "1.prems" show ?thesis by simp
  qed
qed

lemma loadWords_scheduleOk:
  assumes "length block = 64"
  shows "length (loadWords block 0 []) = 16 \<and> scheduleOk block (loadWords block 0 [])"
proof -
  have len: "length (loadWords block 0 []) = 16"
    by (rule loadWords_length) simp_all
  have "loadWords block 0 [] ! t = sha1_W block t" if "t < 16" for t
  proof -
    have "loadWords block 0 [] ! t = packWord block (4 * t)"
      by (rule loadWords_nth) (use that in simp_all)
    also have "\<dots> = sha1_M block t"
      by (rule packWord_sha1_M) (use that assms in simp)
    finally show ?thesis using that by (simp add: sha1_W.simps [of block t])
  qed
  with len show ?thesis by (simp add: scheduleOk_def)
qed

lemma roundStep_sha1_step:
  "i < 80 \<Longrightarrow> length ws = 80 \<Longrightarrow> scheduleOk block ws \<Longrightarrow> roundStep ws s i = sha1_step block s i"
  by (cases s) (simp add: scheduleOk_def rotl_word_rotl roundF_sha1_f roundK_sha1_K)

lemma mainLoop_foldl:
  "i \<le> 80 \<Longrightarrow> length ws = 80 \<Longrightarrow> scheduleOk block ws \<Longrightarrow>
   mainLoop ws i s = foldl (sha1_step block) s [i..<80]"
proof (induction ws i s rule: mainLoop.induct)
  case (1 wordArray i s)
  show ?case
  proof (cases "i < 80")
    case True
    have step: "mainLoop wordArray i s = mainLoop wordArray (i + 1) (roundStep wordArray s i)"
      using True by (subst mainLoop.simps) simp
    have "mainLoop wordArray (i + 1) (roundStep wordArray s i) =
        foldl (sha1_step block) (roundStep wordArray s i) [i + 1..<80]"
      using True "1.prems" by (intro "1.IH" [OF True]) simp_all
    moreover have "roundStep wordArray s i = sha1_step block s i"
      using True "1.prems" by (intro roundStep_sha1_step) simp_all
    moreover have "[i..<80] = i # [i + 1..<80]"
      using True by (simp add: upt_conv_Cons)
    ultimately show ?thesis by (simp only: step foldl_Cons)
  next
    case False
    then have "mainLoop wordArray i s = s"
      by (subst mainLoop.simps) simp
    with False "1.prems" show ?thesis by simp
  qed
qed

lemma processBlock_sha1_compress:
  assumes "length block = 64"
  shows "processBlock block h = sha1_compress h block"
proof -
  let ?ws = "expandSchedule 16 (loadWords block 0 [])"
  have ws: "length ?ws = 80 \<and> scheduleOk block ?ws"
    using loadWords_scheduleOk [OF assms] by (intro expandSchedule_sha1_W) simp_all
  then have "mainLoop ?ws 0 h = foldl (sha1_step block) h [0..<80]"
    by (intro mainLoop_foldl) simp_all
  then show ?thesis
    by (cases h; cases "foldl (sha1_step block) h [0..<80]")
      (simp add: processBlock_def add.commute)
qed

subsection \<open>update absorbs the message block by block\<close>

text \<open>
  Proof-side notions: \<open>hashBlocks h xs\<close> runs \<^const>\<open>processBlock\<close> over the complete
  64-byte blocks of \<open>xs\<close>, \<open>pending xs\<close> is what remains after them, and
  \<open>absorbed g msg\<close> says that the generator \<open>g\<close> is in the state reached after the bytes
  \<open>msg\<close>: the blocks hashed, the rest waiting in the buffer.
\<close>

definition hashBlocks :: "hv \<Rightarrow> byte list \<Rightarrow> hv" where
  "hashBlocks h xs = foldl (\<lambda>h block. processBlock block h) h (sha1_blocks xs)"

definition pending :: "byte list \<Rightarrow> byte list" where
  "pending xs = drop (64 * (length xs div 64)) xs"

definition absorbed :: "hashGenerator \<Rightarrow> byte list \<Rightarrow> bool" where
  "absorbed g msg \<longleftrightarrow>
     hashValues g = hashBlocks initialHash msg \<and> bufferPos g = length msg mod 64 \<and>
     take (bufferPos g) (messageBuffer g) = pending msg \<and> length (messageBuffer g) \<le> 64 \<and>
     totalLength g = length msg"

declare sha1_blocks.simps [simp del]

lemma sha1_blocks_short: "length xs < 64 \<Longrightarrow> sha1_blocks xs = []"
  by (simp add: sha1_blocks.simps [of xs])

lemma sha1_blocks_append:
  "64 dvd length xs \<Longrightarrow> sha1_blocks (xs @ ys) = sha1_blocks xs @ sha1_blocks ys"
proof (induction xs rule: sha1_blocks.induct)
  case (1 xs)
  show ?case
  proof (cases "length xs < 64")
    case True
    with "1.prems" have "xs = []" by (auto elim!: dvdE)
    then show ?thesis by (simp add: sha1_blocks_short)
  next
    case False
    then have "64 dvd length (drop 64 xs)"
      using "1.prems" by (simp add: dvd_diff_nat)
    with False "1.IH" have "sha1_blocks (drop 64 xs @ ys) = sha1_blocks (drop 64 xs) @ sha1_blocks ys"
      by simp
    with False show ?thesis
      by (simp add: sha1_blocks.simps [of xs] sha1_blocks.simps [of "xs @ ys"])
  qed
qed

lemma sha1_blocks_single: "length b = 64 \<Longrightarrow> sha1_blocks b = [b]"
  by (simp add: sha1_blocks.simps [of b] sha1_blocks_short)

lemma split_pending: "take (64 * (length xs div 64)) xs @ pending xs = xs"
  by (simp add: pending_def)

lemma length_pending [simp]: "length (pending xs) = length xs mod 64"
  by (simp add: pending_def minus_mult_div_eq_mod)

lemma sha1_blocks_pending:
  "sha1_blocks (xs @ ys) = sha1_blocks xs @ sha1_blocks (pending xs @ ys)"
proof -
  let ?w = "take (64 * (length xs div 64)) xs"
  have len: "length ?w = 64 * (length xs div 64)" by simp
  then have dvd: "64 dvd length ?w" by simp
  have "sha1_blocks (?w @ (pending xs @ ys)) = sha1_blocks ?w @ sha1_blocks (pending xs @ ys)"
    using dvd by (rule sha1_blocks_append)
  moreover have "sha1_blocks (?w @ pending xs) = sha1_blocks ?w @ sha1_blocks (pending xs)"
    using dvd by (rule sha1_blocks_append)
  moreover have "sha1_blocks (pending xs) = []" by (simp add: sha1_blocks_short)
  ultimately show ?thesis
    using split_pending [of xs] by (metis append.assoc append_Nil2)
qed

lemma hashBlocks_append:
  "hashBlocks h (xs @ ys) = hashBlocks (hashBlocks h xs) (pending xs @ ys)"
  by (simp add: hashBlocks_def sha1_blocks_pending [of xs ys])

lemma pending_append: "pending (xs @ ys) = pending (pending xs @ ys)"
proof -
  define q where "q = length xs div 64"
  define r where "r = (length xs mod 64 + length ys) div 64"
  have "length (xs @ ys) div 64 = q + r"
    by (simp add: q_def r_def div_add1_eq [of "length xs" "length ys" 64]
        div_add1_eq [of "length xs mod 64" "length ys" 64] add.assoc)
  then have "pending (xs @ ys) = drop (64 * r + 64 * q) (xs @ ys)"
    unfolding pending_def by (simp only: distrib_left add.commute)
  also have "\<dots> = drop (64 * r) (drop (64 * q) (xs @ ys))"
    by (simp only: drop_drop)
  also have "drop (64 * q) (xs @ ys) = pending xs @ ys"
    by (simp add: pending_def q_def)
  also have "drop (64 * r) (pending xs @ ys) = pending (pending xs @ ys)"
    unfolding pending_def [of "pending xs @ ys"] by (simp only: r_def length_append length_pending)
  finally show ?thesis .
qed

lemma hashBlocks_short: "length xs < 64 \<Longrightarrow> hashBlocks h xs = h"
  by (simp add: hashBlocks_def sha1_blocks_short)

lemma pending_short: "length xs < 64 \<Longrightarrow> pending xs = xs"
  by (simp add: pending_def)

lemma hashBlocks_single: "length b = 64 \<Longrightarrow> hashBlocks h b = processBlock b h"
  by (simp add: hashBlocks_def sha1_blocks_single)

lemma pending_full: "64 dvd length xs \<Longrightarrow> pending xs = []"
  by (auto simp add: pending_def elim!: dvdE)

declare processFullBlocks.simps [simp del] fillBuffer.simps [simp del]

lemma length_jsSet: "length (jsSet xs i v) = max (length xs) (Suc i)"
  by (auto simp add: jsSet_def)

lemma jsGet_jsSet: "jsGet (jsSet xs i v) j = (if j = i then v else jsGet xs j)"
  by (auto simp add: jsSet_def jsGet_def nth_append)

lemma take_jsSet: "i \<le> length xs \<Longrightarrow> take (Suc i) (jsSet xs i v) = take i xs @ [v]"
  by (auto simp add: jsSet_def take_Suc_conv_app_nth take_update_cancel le_eq_less_or_eq)

lemma slice_length: "b \<le> length xs \<Longrightarrow> length (slice xs a b) = b - a"
  by (simp add: slice_def)

lemma slice_empty [simp]: "slice xs a a = []"
  by (simp add: slice_def)

lemma slice_append:
  "a \<le> b \<Longrightarrow> b \<le> c \<Longrightarrow> slice xs a b @ slice xs b c = slice xs a c"
proof -
  assume ab: "a \<le> b" and bc: "b \<le> c"
  have "take (c - a) (drop a xs) = take (b - a) (drop a xs) @ take (c - b) (drop (b - a) (drop a xs))"
    using ab bc take_add [of "b - a" "c - b" "drop a xs"] by simp
  then show ?thesis using ab by (simp add: slice_def)
qed

lemma slice_Suc:
  "a < length xs \<Longrightarrow> a < c \<Longrightarrow> jsGet xs a # slice xs (Suc a) c = slice xs a c"
proof -
  assume a: "a < length xs" and c: "a < c"
  have "slice xs a (Suc a) = [xs ! a]"
    using a by (simp add: slice_def take_Suc_conv_app_nth)
  with slice_append [of a "Suc a" c xs] a c show ?thesis
    by (simp add: jsGet_def)
qed

lemma absorbedD:
  assumes "absorbed g msg"
  shows "hashValues g = hashBlocks initialHash msg"
    and "bufferPos g = length msg mod 64"
    and "take (length msg mod 64) (messageBuffer g) = pending msg"
    and "length (messageBuffer g) \<le> 64"
    and "totalLength g = length msg"
    and "length msg mod 64 \<le> length (messageBuffer g)"
proof -
  show b: "bufferPos g = length msg mod 64"
    and "hashValues g = hashBlocks initialHash msg"
    and "length (messageBuffer g) \<le> 64"
    and "totalLength g = length msg"
    using assms unfolding absorbed_def by blast+
  have "take (bufferPos g) (messageBuffer g) = pending msg"
    using assms unfolding absorbed_def by blast
  then show e: "take (length msg mod 64) (messageBuffer g) = pending msg"
    by (simp only: b)
  have "length (take (length msg mod 64) (messageBuffer g)) = length msg mod 64"
    by (simp only: e length_pending)
  then show "length msg mod 64 \<le> length (messageBuffer g)"
    by (simp add: min_def split: if_splits)
qed

lemma absorbedI:
  assumes "hashValues g = hashBlocks initialHash msg"
    and "bufferPos g = length msg mod 64"
    and "take (length msg mod 64) (messageBuffer g) = pending msg"
    and "length (messageBuffer g) \<le> 64"
    and "totalLength g = length msg"
  shows "absorbed g msg"
  unfolding absorbed_def using assms by simp

lemma absorbed_pushByte:
  assumes "absorbed g msg" and "bufferPos g \<noteq> 63"
  shows "absorbed (pushByte v g) (msg @ [v])"
proof -
  note d = absorbedD [OF assms(1)]
  have lt: "length msg mod 64 + 1 < 64"
    using assms(2) d(2) by (simp add: less_Suc_eq)
  have short: "length (pending msg @ [v]) < 64" using lt by simp
  have h: "hashBlocks initialHash (msg @ [v]) = hashBlocks initialHash msg"
    by (simp only: hashBlocks_append [of _ msg] hashBlocks_short [OF short])
  have p: "pending (msg @ [v]) = pending msg @ [v]"
    by (simp only: pending_append [of msg] pending_short [OF short])
  have m: "length (msg @ [v]) mod 64 = Suc (length msg mod 64)"
    using lt by (simp add: mod_Suc)
  show ?thesis
  proof (rule absorbedI)
    show "hashValues (pushByte v g) = hashBlocks initialHash (msg @ [v])"
      by (simp add: pushByte_def d(1) h)
    show "bufferPos (pushByte v g) = length (msg @ [v]) mod 64"
      by (simp only: m) (simp add: pushByte_def d(2))
    show "take (length (msg @ [v]) mod 64) (messageBuffer (pushByte v g)) = pending (msg @ [v])"
      by (simp only: m p) (simp add: pushByte_def d(2) take_jsSet [OF d(6)] d(3))
    show "length (messageBuffer (pushByte v g)) \<le> 64"
      using lt d(4) by (simp add: pushByte_def d(2) length_jsSet)
    show "totalLength (pushByte v g) = length (msg @ [v])"
      by (simp add: pushByte_def d(5))
  qed
qed

lemma absorbed_flush:
  assumes "absorbed g msg" and "bufferPos g = 63"
  shows "absorbed (flushBuffer (pushByte v g)) (msg @ [v])"
proof -
  note d = absorbedD [OF assms(1)]
  have r: "length msg mod 64 = 63" using assms(2) d(2) by simp
  have full: "length (pending msg @ [v]) = 64" using r by simp
  let ?buf = "jsSet (messageBuffer g) 63 v"
  have "take 64 ?buf = pending msg @ [v]"
    using take_jsSet [of 63 "messageBuffer g" v] d(3) d(6) r by simp
  moreover have "length ?buf = 64"
    using d(4) by (simp add: length_jsSet)
  ultimately have buf: "?buf = pending msg @ [v]" by simp
  have h: "hashBlocks initialHash (msg @ [v]) =
      processBlock (pending msg @ [v]) (hashBlocks initialHash msg)"
    by (simp only: hashBlocks_append [of _ msg] hashBlocks_single [OF full])
  have p: "pending (msg @ [v]) = []"
    by (simp only: pending_append [of msg] pending_full [of "pending msg @ [v]"] full dvd_refl)
  have m: "length (msg @ [v]) mod 64 = 0"
    using r by (simp add: mod_Suc)
  show ?thesis
  proof (rule absorbedI)
    show "hashValues (flushBuffer (pushByte v g)) = hashBlocks initialHash (msg @ [v])"
      by (simp add: pushByte_def flushBuffer_def assms(2) buf d(1) h)
    show "bufferPos (flushBuffer (pushByte v g)) = length (msg @ [v]) mod 64"
      by (simp only: m) (simp add: flushBuffer_def)
    show "take (length (msg @ [v]) mod 64) (messageBuffer (flushBuffer (pushByte v g))) =
        pending (msg @ [v])"
      by (simp only: m p) simp
    show "length (messageBuffer (flushBuffer (pushByte v g))) \<le> 64"
      using buf full by (simp add: pushByte_def flushBuffer_def assms(2))
    show "totalLength (flushBuffer (pushByte v g)) = length (msg @ [v])"
      by (simp add: pushByte_def flushBuffer_def d(5))
  qed
qed

lemma absorbed_absorbBlock:
  assumes "absorbed g msg" and "bufferPos g = 0" and "length block = 64"
  shows "absorbed (absorbBlock block g) (msg @ block)"
proof -
  note d = absorbedD [OF assms(1)]
  have dvd: "64 dvd length msg" using assms(2) d(2) by (simp add: dvd_eq_mod_eq_0)
  have h: "hashBlocks initialHash (msg @ block) = processBlock block (hashBlocks initialHash msg)"
    by (simp add: hashBlocks_append [of _ msg] pending_full [OF dvd] hashBlocks_single assms(3))
  have p: "pending (msg @ block) = []"
    using dvd assms(3) by (intro pending_full) simp
  have m: "length (msg @ block) mod 64 = 0"
    using dvd assms(3) by (simp add: dvd_eq_mod_eq_0)
  show ?thesis
  proof (rule absorbedI)
    show "hashValues (absorbBlock block g) = hashBlocks initialHash (msg @ block)"
      by (simp add: absorbBlock_def d(1) h)
    show "bufferPos (absorbBlock block g) = length (msg @ block) mod 64"
      by (simp only: m) (simp add: absorbBlock_def assms(2))
    show "take (length (msg @ block) mod 64) (messageBuffer (absorbBlock block g)) =
        pending (msg @ block)"
      by (simp only: m p) simp
    show "length (messageBuffer (absorbBlock block g)) \<le> 64"
      using d(4) by (simp add: absorbBlock_def)
    show "totalLength (absorbBlock block g) = length (msg @ block)"
      by (simp add: absorbBlock_def d(5) assms(3))
  qed
qed

lemma absorbed_processFullBlocks:
  "absorbed g msg \<Longrightarrow> bufferPos g = 0 \<Longrightarrow> dataPos \<le> len \<Longrightarrow> len \<le> length data \<Longrightarrow>
   processFullBlocks data len dataPos g = (p, g') \<Longrightarrow>
   absorbed g' (msg @ slice data dataPos p) \<and> bufferPos g' = 0 \<and> dataPos \<le> p \<and> p \<le> len"
proof (induction data len dataPos g arbitrary: msg rule: processFullBlocks.induct)
  case (1 data len dataPos g)
  show ?case
  proof (cases "dataPos + 64 < len")
    case True
    let ?block = "slice data dataPos (dataPos + 64)"
    have len: "length ?block = 64"
      using True "1.prems"(4) by (simp add: slice_length)
    have a: "absorbed (absorbBlock ?block g) (msg @ ?block)"
      using "1.prems"(1,2) len by (rule absorbed_absorbBlock)
    have b: "bufferPos (absorbBlock ?block g) = 0"
      using "1.prems"(2) by (simp add: absorbBlock_def)
    have r: "processFullBlocks data len (dataPos + 64) (absorbBlock ?block g) = (p, g')"
      using "1.prems"(5) True by (simp add: processFullBlocks.simps [of data len dataPos g])
    have "absorbed g' ((msg @ ?block) @ slice data (dataPos + 64) p) \<and> bufferPos g' = 0 \<and>
        dataPos + 64 \<le> p \<and> p \<le> len"
      using "1.IH" [OF True a b _ "1.prems"(4) r] True by simp
    then show ?thesis
      using slice_append [of dataPos "dataPos + 64" p data] by simp
  next
    case False
    with "1.prems" show ?thesis
      by (simp add: processFullBlocks.simps [of data len dataPos g])
  qed
qed

lemma absorbed_fillBuffer:
  "absorbed g msg \<Longrightarrow> dataPos \<le> len \<Longrightarrow> len \<le> length data \<Longrightarrow>
   absorbed (fillBuffer data len dataPos g) (msg @ slice data dataPos len)"
proof (induction data len dataPos g arbitrary: msg rule: fillBuffer.induct)
  case (1 data len dataPos g)
  let ?v = "jsGet data dataPos"
  show ?case
  proof (cases "dataPos < len")
    case False
    then have "fillBuffer data len dataPos g = g"
      by (simp add: fillBuffer.simps [of data len dataPos g])
    moreover have "slice data dataPos len = []"
      using False by (simp add: slice_def)
    ultimately show ?thesis using "1.prems"(1) by simp
  next
    case True
    then have inr: "dataPos < length data" using "1.prems"(3) by simp
    have sl: "msg @ slice data dataPos len = (msg @ [?v]) @ slice data (Suc dataPos) len"
      using slice_Suc [OF inr True] by simp
    show ?thesis
    proof (cases "bufferPos (pushByte ?v g) = 64")
      case full: True
      then have b63: "bufferPos g = 63" by (simp add: pushByte_def)
      obtain p g' where r: "processFullBlocks data len (dataPos + 1)
          (flushBuffer (pushByte ?v g)) = (p, g')"
        by (cases "processFullBlocks data len (dataPos + 1) (flushBuffer (pushByte ?v g))")
      have a: "absorbed (flushBuffer (pushByte ?v g)) (msg @ [?v])"
        using "1.prems"(1) b63 by (rule absorbed_flush)
      have b0: "bufferPos (flushBuffer (pushByte ?v g)) = 0"
        by (simp add: flushBuffer_def)
      have pf: "absorbed g' ((msg @ [?v]) @ slice data (dataPos + 1) p) \<and> bufferPos g' = 0 \<and>
          dataPos + 1 \<le> p \<and> p \<le> len"
        using absorbed_processFullBlocks [OF a b0 _ "1.prems"(3) r] True by simp
      from pf have a': "absorbed g' ((msg @ [?v]) @ slice data (dataPos + 1) p)"
        and ple: "p \<le> len" by blast+
      have "absorbed (fillBuffer data len p g')
          (((msg @ [?v]) @ slice data (dataPos + 1) p) @ slice data p len)"
        by (rule "1.IH"(1) [OF True full r [symmetric] a' ple "1.prems"(3)])
      moreover have "fillBuffer data len dataPos g = fillBuffer data len p g'"
        using True full r by (simp add: fillBuffer.simps [of data len dataPos g])
      moreover have "slice data (dataPos + 1) p @ slice data p len = slice data (dataPos + 1) len"
        using pf by (intro slice_append) simp_all
      ultimately show ?thesis using sl by simp
    next
      case notfull: False
      then have b: "bufferPos g \<noteq> 63" by (simp add: pushByte_def)
      have a: "absorbed (pushByte ?v g) (msg @ [?v])"
        using "1.prems"(1) b by (rule absorbed_pushByte)
      have sle: "dataPos + 1 \<le> len" using True by simp
      have "absorbed (fillBuffer data len (dataPos + 1) (pushByte ?v g))
          ((msg @ [?v]) @ slice data (dataPos + 1) len)"
        by (rule "1.IH"(2) [OF True notfull a sle "1.prems"(3)])
      moreover have "fillBuffer data len dataPos g = fillBuffer data len (dataPos + 1) (pushByte ?v g)"
        using True notfull by (simp add: fillBuffer.simps [of data len dataPos g])
      ultimately show ?thesis using sl by simp
    qed
  qed
qed

lemma absorbed_update:
  assumes "absorbed g msg" and "effectiveLength (toBytes input) dataLength \<le> length (toBytes input)"
  shows "absorbed (update input dataLength g)
           (msg @ take (effectiveLength (toBytes input) dataLength) (toBytes input))"
proof -
  let ?data = "toBytes input"
  let ?len = "effectiveLength ?data dataLength"
  have tk: "take ?len ?data = slice ?data 0 ?len" by (simp add: slice_def)
  show ?thesis
  proof (cases "bufferPos g = 0")
    case True
    obtain p g' where r: "processFullBlocks ?data ?len 0 g = (p, g')"
      by (cases "processFullBlocks ?data ?len 0 g")
    have pf: "absorbed g' (msg @ slice ?data 0 p) \<and> bufferPos g' = 0 \<and> 0 \<le> p \<and> p \<le> ?len"
      using absorbed_processFullBlocks [OF assms(1) True _ assms(2) r] by simp
    then have "absorbed (fillBuffer ?data ?len p g') ((msg @ slice ?data 0 p) @ slice ?data p ?len)"
      using assms(2) by (intro absorbed_fillBuffer) simp_all
    moreover have "slice ?data 0 p @ slice ?data p ?len = slice ?data 0 ?len"
      using pf by (intro slice_append) simp_all
    ultimately show ?thesis using True r tk by (simp add: update_def)
  next
    case False
    have "absorbed (fillBuffer ?data ?len 0 g) (msg @ slice ?data 0 ?len)"
      using assms by (intro absorbed_fillBuffer) simp_all
    with False tk show ?thesis by (simp add: update_def)
  qed
qed

lemma absorbed_create: "absorbed createHashGenerator []"
  by (rule absorbedI)
    (simp_all add: createHashGenerator_def reset_def hashBlocks_short pending_def)

subsection \<open>digest pads and finishes\<close>

definition lengthField :: "nat \<Rightarrow> byte list" where
  "lengthField bl =
     [lowByte (ushr8 (ushr8 (ushr8 (ushr8 (ushr8 (ushr8 (ushr8 bl))))))),
      lowByte (ushr8 (ushr8 (ushr8 (ushr8 (ushr8 (ushr8 bl)))))),
      lowByte (ushr8 (ushr8 (ushr8 (ushr8 (ushr8 bl))))),
      lowByte (ushr8 (ushr8 (ushr8 (ushr8 bl)))),
      lowByte (ushr8 (ushr8 (ushr8 bl))),
      lowByte (ushr8 (ushr8 bl)),
      lowByte (ushr8 bl),
      lowByte bl]"

lemma nth_jsSet: "j < length (jsSet xs i v) \<Longrightarrow> jsSet xs i v ! j = (if j = i then v else jsGet xs j)"
  using jsGet_jsSet [of xs i v j] by (simp add: jsGet_def)

lemma appendLength_eq:
  assumes "56 \<le> length buf" and "length buf \<le> 64"
  shows "appendLength 63 bl buf = take 56 buf @ lengthField bl"
proof (rule nth_equalityI)
  have unf: "appendLength 63 bl buf =
     jsSet (jsSet (jsSet (jsSet (jsSet (jsSet (jsSet (jsSet buf 63 (lowByte bl))
       62 (lowByte (ushr8 bl)))
       61 (lowByte (ushr8 (ushr8 bl))))
       60 (lowByte (ushr8 (ushr8 (ushr8 bl)))))
       59 (lowByte (ushr8 (ushr8 (ushr8 (ushr8 bl))))))
       58 (lowByte (ushr8 (ushr8 (ushr8 (ushr8 (ushr8 bl)))))))
       57 (lowByte (ushr8 (ushr8 (ushr8 (ushr8 (ushr8 (ushr8 bl))))))))
       56 (lowByte (ushr8 (ushr8 (ushr8 (ushr8 (ushr8 (ushr8 (ushr8 bl))))))))"
    by simp
  show len: "length (appendLength 63 bl buf) = length (take 56 buf @ lengthField bl)"
    using assms by (simp add: unf length_jsSet lengthField_def)
  fix i
  assume "i < length (appendLength 63 bl buf)"
  then have i: "i < 64" using len assms by (simp add: lengthField_def)
  show "appendLength 63 bl buf ! i = (take 56 buf @ lengthField bl) ! i"
  proof (cases "i < 56")
    case True
    with assms show ?thesis
      by (simp add: unf nth_jsSet length_jsSet jsGet_jsSet jsGet_def nth_append)
  next
    case False
    with i have "i = 56 \<or> i = 57 \<or> i = 58 \<or> i = 59 \<or> i = 60 \<or> i = 61 \<or> i = 62 \<or> i = 63"
      by arith
    with assms show ?thesis
      by (auto simp add: unf nth_jsSet length_jsSet jsGet_jsSet nth_append lengthField_def)
  qed
qed

lemma lowByte_of_nat: "lowByte x = of_nat x"
proof -
  have "(x mod 2 ^ 32) mod 256 = x mod 256"
    by (simp add: mod_mod_cancel)
  then show ?thesis
    by (simp add: lowByte_def word_of_nat_eq_iff take_bit_eq_mod)
qed

lemma lengthField_sha1_be64:
  assumes "bl < 2 ^ 32"
  shows "lengthField bl = sha1_be64 bl"
proof -
  define x1 where "x1 = bl div 256"
  define x2 where "x2 = x1 div 256"
  define x3 where "x3 = x2 div 256"
  have lt: "x1 < 2 ^ 32" "x2 < 2 ^ 32" "x3 < 2 ^ 32" "x3 div 256 = 0"
    using assms by (simp_all add: x1_def x2_def x3_def)
  have u: "ushr8 bl = x1" "ushr8 x1 = x2" "ushr8 x2 = x3" "ushr8 x3 = 0" "ushr8 0 = 0"
    using assms lt by (simp_all add: ushr8_def x1_def x2_def x3_def)
  have b: "bl div 256 ^ 7 = 0" "bl div 256 ^ 6 = 0" "bl div 256 ^ 5 = 0" "bl div 256 ^ 4 = 0"
    using assms by simp_all
  have c: "bl div 256 ^ 3 = x3" "bl div 256 ^ 2 = x2" "bl div 256 ^ 1 = x1" "bl div 256 ^ 0 = bl"
    by (simp_all add: x1_def x2_def x3_def div_mult2_eq power3_eq_cube power2_eq_square)
  have upt8: "[0..<8] = [0, 1, 2, 3, 4, 5, 6, 7]"
    by (simp add: upt_rec)
  have "sha1_be64 bl = [0, 0, 0, 0, of_nat x3, of_nat x2, of_nat x1, of_nat bl]"
    unfolding sha1_be64_def upt8 using b c by simp
  moreover have "lengthField bl = [0, 0, 0, 0, of_nat x3, of_nat x2, of_nat x1, of_nat bl]"
    unfolding lengthField_def by (simp only: u lowByte_of_nat) simp
  ultimately show ?thesis by simp
qed

lemma wordBytes_sha1_be32: "wordBytes h = sha1_be32 h"
proof -
  have m: "(255 :: 32 word) = mask 8" by (simp add: mask_eq_exp_minus_1)
  have s: "(ucast (signed_drop_bit k h AND 255) :: byte) = ucast (drop_bit k h)" if "k \<le> 24" for k
    unfolding m by (rule bit_word_eqI) (use that in \<open>auto simp add: bit_simps\<close>)
  have r: "(of_nat (unat h div 2 ^ k) :: byte) = ucast (drop_bit k h)" for k
    by (metis drop_bit_eq_div of_nat_unat unat_drop_bit_eq)
  have upt4: "[0..<4] = [0, 1, 2, 3]"
    by (simp add: upt_rec)
  have p: "(256 :: nat) ^ 3 = 2 ^ 24" "(256 :: nat) ^ 2 = 2 ^ 16" "(256 :: nat) = 2 ^ 8"
    by simp_all
  have "sha1_be32 h = [ucast (drop_bit 24 h), ucast (drop_bit 16 h), ucast (drop_bit 8 h),
      ucast (drop_bit 0 h)]"
    unfolding sha1_be32_def upt4
    using r [of 24] r [of 16] r [of 8] r [of 0] by simp
  then show ?thesis
    unfolding wordBytes_def using s [of 24] s [of 16] s [of 8] s [of 0] by simp
qed

lemma hashBytes_sha1_output: "hashBytes h = sha1_output h"
  by (cases h) (simp add: wordBytes_sha1_be32)

lemma sha1_blocks_lengths: "block \<in> set (sha1_blocks xs) \<Longrightarrow> length block = 64"
proof (induction xs rule: sha1_blocks.induct)
  case (1 xs)
  show ?case
  proof (cases "length xs < 64")
    case True
    with "1.prems" show ?thesis by (simp add: sha1_blocks_short)
  next
    case False
    with "1.prems" "1.IH" show ?thesis
      by (auto simp add: sha1_blocks.simps [of xs])
  qed
qed

lemma foldl_processBlock_sha1_compress:
  "(\<And>block. block \<in> set bs \<Longrightarrow> length block = 64) \<Longrightarrow>
   foldl (\<lambda>h block. processBlock block h) h bs = foldl sha1_compress h bs"
  by (induction bs arbitrary: h) (simp_all add: processBlock_sha1_compress)

lemma hashBlocks_sha1: "hashBlocks sha1_H0 xs = foldl sha1_compress sha1_H0 (sha1_blocks xs)"
  unfolding hashBlocks_def
  by (rule foldl_processBlock_sha1_compress) (rule sha1_blocks_lengths)

lemma initialHash_sha1_H0: "initialHash = sha1_H0"
  by (simp add: initialHash_def sha1_H0_def)

definition padCount :: "nat \<Rightarrow> nat" where
  "padCount r = (if r < 56 then 56 - r else 64 - (r - 56))"

lemma padCount_bounds: "r < 64 \<Longrightarrow> 0 < padCount r \<and> padCount r \<le> 64"
  unfolding padCount_def by (cases "r < 56") auto

lemma appendPadding_absorbed:
  assumes "absorbed g msg"
  shows "absorbed (appendPadding g) (msg @ take (padCount (length msg mod 64)) padding)"
proof -
  note d = absorbedD [OF assms]
  let ?r = "length msg mod 64"
  have r: "?r < 64" by simp
  have k: "0 < padCount ?r" "padCount ?r \<le> 64"
    using padCount_bounds [OF r] by blast+
  have tb: "toBytes (Bytes padding) = padding" by (simp add: toBytes_def)
  have e: "effectiveLength padding (Some (padCount ?r)) = padCount ?r"
    using k by (simp add: effectiveLength_def)
  have l: "length padding = 64"
    by (simp add: padding_def)
  have "absorbed (update (Bytes padding) (Some (padCount ?r)) g)
      (msg @ take (effectiveLength (toBytes (Bytes padding)) (Some (padCount ?r)))
        (toBytes (Bytes padding)))"
    using assms by (rule absorbed_update) (simp add: tb e l k)
  then have "absorbed (update (Bytes padding) (Some (padCount ?r)) g)
      (msg @ take (padCount ?r) padding)"
    by (simp only: tb e)
  moreover have "appendPadding g = update (Bytes padding) (Some (padCount ?r)) g"
    by (simp add: appendPadding_def padCount_def d(2))
  ultimately show ?thesis by simp
qed

lemma padded_mod: "(length msg + padCount (length msg mod 64)) mod 64 = 56"
proof -
  define r where "r = length msg mod 64"
  have r: "r < 64" by (simp add: r_def)
  have "r + padCount r = 56 \<or> r + padCount r = 120"
  proof (cases "r < 56")
    case True
    then show ?thesis by (simp add: padCount_def)
  next
    case False
    with r show ?thesis by (simp add: padCount_def)
  qed
  then have "(r + padCount r) mod 64 = 56" by auto
  then show ?thesis unfolding r_def by (simp add: mod_add_left_eq)
qed

lemma padded_length:
  "length (msg @ take (padCount (length msg mod 64)) padding) mod 64 = 56"
proof -
  have lp: "length padding = 64" by (simp add: padding_def)
  have kl: "padCount (length msg mod 64) \<le> 64"
    using padCount_bounds [of "length msg mod 64"] by simp
  have "length (msg @ take (padCount (length msg mod 64)) padding) =
      length msg + padCount (length msg mod 64)"
    using kl by (simp add: lp)
  then show ?thesis
    using padded_mod [of msg] by simp
qed

lemma appendLength_absorbed:
  assumes "absorbed g m" and "length m mod 64 = 56"
  shows "appendLength 63 bl (messageBuffer g) = pending m @ lengthField bl"
proof -
  note d = absorbedD [OF assms(1)]
  have "56 \<le> length (messageBuffer g)" using d(6) assms(2) by simp
  then have "appendLength 63 bl (messageBuffer g) = take 56 (messageBuffer g) @ lengthField bl"
    using d(4) by (rule appendLength_eq)
  moreover have "take 56 (messageBuffer g) = pending m"
    using d(3) assms(2) by simp
  ultimately show ?thesis by (simp only:)
qed

lemma finalize_absorbed:
  assumes "absorbed g m" and "length m mod 64 = 56"
  shows "hashValues (finalize bl g) = hashBlocks initialHash (m @ lengthField bl)"
    and "messageBuffer (finalize bl g) = pending m @ lengthField bl"
proof -
  note d = absorbedD [OF assms(1)]
  note buf = appendLength_absorbed [OF assms, of bl]
  have full: "length (pending m @ lengthField bl) = 64"
    using assms(2) by (simp add: lengthField_def)
  have h: "processBlock (pending m @ lengthField bl) (hashBlocks initialHash m) =
      hashBlocks initialHash (m @ lengthField bl)"
    by (simp only: hashBlocks_append [of _ m] hashBlocks_single [OF full])
  show "hashValues (finalize bl g) = hashBlocks initialHash (m @ lengthField bl)"
    unfolding finalize_def buf by (simp only: d(1) h [symmetric]) simp
  show "messageBuffer (finalize bl g) = pending m @ lengthField bl"
    unfolding finalize_def buf by simp
qed

lemma digest_absorbed:
  assumes "absorbed g msg"
  shows "fst (digest g) = hashBytes (hashBlocks initialHash
           (msg @ take (padCount (length msg mod 64)) padding @ lengthField (8 * length msg)))"
    and "messageBuffer (snd (digest g)) =
           pending (msg @ take (padCount (length msg mod 64)) padding)
             @ lengthField (8 * length msg)"
proof -
  have a: "absorbed (appendPadding g) (msg @ take (padCount (length msg mod 64)) padding)"
    using assms by (rule appendPadding_absorbed)
  note f = finalize_absorbed [OF a padded_length, of "8 * length msg"]
  have t: "totalLength g * 8 = 8 * length msg"
    using absorbedD(5) [OF assms] by simp
  show "fst (digest g) = hashBytes (hashBlocks initialHash
           (msg @ take (padCount (length msg mod 64)) padding @ lengthField (8 * length msg)))"
    unfolding digest_def t fst_conv f(1) by (simp only: append_assoc)
  show "messageBuffer (snd (digest g)) =
           pending (msg @ take (padCount (length msg mod 64)) padding)
             @ lengthField (8 * length msg)"
    unfolding digest_def t snd_conv f(2) by (rule refl)
qed

lemma take_padding: "0 < k \<Longrightarrow> k \<le> 64 \<Longrightarrow> take k padding = 128 # replicate (k - 1) 0"
  by (cases k) (simp_all add: padding_def)

lemma padCount_sha1: "r < 64 \<Longrightarrow> padCount r - 1 = (119 - r) mod 64"
  unfolding padCount_def by (cases "r < 56") (auto simp add: mod_if)

lemma code_padding_sha1_pad:
  assumes "8 * length m < 2 ^ 32"
  shows "m @ take (padCount (length m mod 64)) padding @ lengthField (8 * length m) = sha1_pad m"
proof -
  let ?r = "length m mod 64"
  have k: "0 < padCount ?r" "padCount ?r \<le> 64"
    using padCount_bounds [of ?r] by simp_all
  have p: "padCount ?r - 1 = (119 - ?r) mod 64"
    by (rule padCount_sha1) simp
  show ?thesis
    unfolding sha1_pad_def
    by (simp only: take_padding [OF k] p lengthField_sha1_be64 [OF assms]) simp
qed

lemma update_fresh_absorbed: "absorbed (update input None createHashGenerator) (toBytes input)"
  using absorbed_update [OF absorbed_create, of input None]
  by (simp add: effectiveLength_def)

theorem hash_is_sha1:
  assumes "length (toBytes input) < 2 ^ 29"
  shows "fst (digest (update input None createHashGenerator)) = sha1 (toBytes input)"
proof -
  have b: "8 * length (toBytes input) < 2 ^ 32" using assms by simp
  show ?thesis
    unfolding sha1_def
    by (simp add: digest_absorbed(1) [OF update_fresh_absorbed]
        code_padding_sha1_pad [OF b] initialHash_sha1_H0 hashBlocks_sha1 hashBytes_sha1_output)
qed

subsection \<open>Evaluating the generator on the empty input\<close>

text \<open>
  Concrete blocks are evaluated by the simplifier. \<open>rotl_eval\<close> keeps the numerals below
  \<open>2^32\<close> on the way.
\<close>

lemma rotl_eval: "rotl n w = take_bit 32 (push_bit n w) OR drop_bit (32 - n) w"
  by (simp add: rotl_def take_bit_word_eq_self)

lemmas block_eval = processBlock_def loadWords.simps expandSchedule.simps mainLoop.simps
  packWord_def jsGet_def scheduleWord_def rotl_eval roundF_def roundK_def initialHash_def

lemma replicate_numeral_eval: "replicate (numeral k) x = x # replicate (pred_numeral k) x"
  by (simp add: numeral_eq_Suc)

lemmas pad_eval = toBytes_def utf8Char_def padCount_def padding_def lengthField_def lowByte_def
  ushr8_def replicate_numeral_eval

lemma padded_empty:
  "toBytes (Text '''') @ take (padCount (length (toBytes (Text '''')) mod 64)) padding
     @ lengthField (8 * length (toBytes (Text ''''))) =
   [128, 0, 0, 0, 0, 0, 0, 0, 0, 0, 0, 0, 0, 0, 0, 0,
    0, 0, 0, 0, 0, 0, 0, 0, 0, 0, 0, 0, 0, 0, 0, 0,
    0, 0, 0, 0, 0, 0, 0, 0, 0, 0, 0, 0, 0, 0, 0, 0,
    0, 0, 0, 0, 0, 0, 0, 0, 0, 0, 0, 0, 0, 0, 0, 0]"
  by (simp add: pad_eval)

lemma block_empty:
  "processBlock
   [128, 0, 0, 0, 0, 0, 0, 0, 0, 0, 0, 0, 0, 0, 0, 0,
    0, 0, 0, 0, 0, 0, 0, 0, 0, 0, 0, 0, 0, 0, 0, 0,
    0, 0, 0, 0, 0, 0, 0, 0, 0, 0, 0, 0, 0, 0, 0, 0,
    0, 0, 0, 0, 0, 0, 0, 0, 0, 0, 0, 0, 0, 0, 0, 0] initialHash =
   (0xda39a3ee, 0x5e6b4b0d, 0x3255bfef, 0x95601890, 0xafd80709)"
  by (simp add: block_eval)

lemma hex_empty:
  "concat (map hexByte (hashBytes (0xda39a3ee, 0x5e6b4b0d, 0x3255bfef, 0x95601890, 0xafd80709))) =
   ''DA39A3EE5E6B4B0D3255BFEF95601890AFD80709''"
  by code_simp

lemma getHash_empty:
  "getHash (update (Text '''') None createHashGenerator) =
   ''DA39A3EE5E6B4B0D3255BFEF95601890AFD80709''"
  unfolding getHash_def getHashHex_def fst_conv
    digest_absorbed(1) [OF update_fresh_absorbed] padded_empty
  apply (subst hashBlocks_single)
   apply simp
  apply (simp only: block_empty hex_empty)
  done

subsection \<open>The format of the hexadecimal output\<close>

definition upperHex :: "string \<Rightarrow> bool" where
  "upperHex s = list_all (\<lambda>c. c \<in> set ''0123456789ABCDEF'') s"

definition lowerHex :: "string \<Rightarrow> bool" where
  "lowerHex s = list_all (\<lambda>c. c \<in> set ''0123456789abcdef'') s"

lemma length_hashBytes: "length (hashBytes h) = 20"
  by (cases h) (simp add: wordBytes_def)

lemma length_digest: "length (fst (digest g)) = 20"
  by (simp add: digest_def length_hashBytes)

lemma length_hex: "length (concat (map hexByte bs)) = 2 * length bs"
  by (induction bs) (simp_all add: hexByte_def)

lemma hexDigit_upper: "n < 16 \<Longrightarrow> hexDigits ! n \<in> set ''0123456789ABCDEF''"
proof -
  assume "n < 16"
  then have "n < length hexDigits" by (simp add: hexDigits_def)
  then have "hexDigits ! n \<in> set hexDigits" by (rule nth_mem)
  then show ?thesis by (simp only: hexDigits_def)
qed

lemma hexByte_upper: "upperHex (hexByte b)"
proof -
  have "unat b < 256" using unsigned_less [of b] by simp
  then have "unat b div 16 < 16" by simp
  moreover have "unat b mod 16 < 16" by simp
  ultimately show ?thesis
    using hexDigit_upper by (simp add: upperHex_def hexByte_def)
qed

lemma hex_upper: "upperHex (concat (map hexByte bs))"
proof (induction bs)
  case Nil
  show ?case by (simp add: upperHex_def)
next
  case (Cons b bs)
  then show ?case using hexByte_upper [of b] by (simp add: upperHex_def)
qed

lemma toLowerChar_hexDigits:
  "list_all (\<lambda>c. toLowerChar c \<in> set ''0123456789abcdef'') ''0123456789ABCDEF''"
  by code_simp

lemma toLowerChar_hex: "c \<in> set ''0123456789ABCDEF'' \<Longrightarrow> toLowerChar c \<in> set ''0123456789abcdef''"
  using toLowerChar_hexDigits unfolding list_all_iff by blast

lemma toLowerCase_hex: "upperHex s \<Longrightarrow> lowerHex (toLowerCase s)"
  unfolding upperHex_def lowerHex_def toLowerCase_def list_all_iff
  using toLowerChar_hex by auto

text \<open>
  Claim C8, as the code has it. \<^verbatim>\<open>getHash\<close> (the function \<^verbatim>\<open>getHashHex\<close>) returns, for
  every state of the generator, 40 characters drawn from \<^verbatim>\<open>0123456789ABCDEF\<close>: the digits
  are upper case. The lower-case form is made by \<^verbatim>\<open>calculateHash\<close>, which applies
  \<^verbatim>\<open>toLowerCase\<close> to it: for every input string its result is 40 characters drawn from
  \<^verbatim>\<open>0123456789abcdef\<close>.
\<close>

theorem getHash_format:
  "length (getHash g) = 40 \<and> upperHex (getHash g) \<and>
   length (calculateHash input) = 40 \<and> lowerHex (calculateHash input)"
proof -
  have l: "length (getHash g') = 40" for g'
    by (simp add: getHash_def getHashHex_def length_hex length_digest)
  have u: "upperHex (getHash g')" for g'
    by (simp add: getHash_def getHashHex_def hex_upper)
  have "length (calculateHash input) = 40"
    by (simp add: calculateHash_def toLowerCase_def l)
  moreover have "lowerHex (calculateHash input)"
    unfolding calculateHash_def by (rule toLowerCase_hex [OF u])
  ultimately show ?thesis using l u by simp
qed

text \<open>
  Claim C8 as stated (the output of \<^verbatim>\<open>getHash\<close> is lower-case hexadecimal) fails on the
  empty input: \<^verbatim>\<open>getHash\<close> returns the digest with the letters in upper case.
\<close>

theorem getHash_not_lowercase:
  "getHash (update (Text '''') None createHashGenerator) =
     ''DA39A3EE5E6B4B0D3255BFEF95601890AFD80709'' \<and>
   \<not> lowerHex (getHash (update (Text '''') None createHashGenerator))"
  by (simp add: getHash_empty lowerHex_def)

subsection \<open>The length field beyond 512 MiB\<close>

lemma digest_as_sha1_chain:
  "fst (digest (update input None createHashGenerator)) =
   sha1_output (foldl sha1_compress sha1_H0 (sha1_blocks
     (toBytes input @ take (padCount (length (toBytes input) mod 64)) padding
        @ lengthField (8 * length (toBytes input)))))"
  by (simp only: digest_absorbed(1) [OF update_fresh_absorbed] initialHash_sha1_H0
      hashBlocks_sha1 hashBytes_sha1_output)

lemma lengthField_wraps: "lengthField (2 ^ 32) = [0, 0, 0, 0, 0, 0, 0, 0]"
  by (simp add: lengthField_def lowByte_def ushr8_def)

lemma sha1_be64_2_32: "sha1_be64 (2 ^ 32) = [0, 0, 0, 1, 0, 0, 0, 0]"
proof -
  have upt8: "[0..<8] = [0, 1, 2, 3, 4, 5, 6, 7]"
    by (simp add: upt_rec)
  show ?thesis unfolding sha1_be64_def upt8 by simp
qed

lemma take_56_padding: "take 56 padding = [128] @ replicate 55 0"
  by (simp add: padding_def)

lemma code_padding_512MiB:
  assumes "length m = 2 ^ 29"
  shows "m @ take (padCount (length m mod 64)) padding @ lengthField (8 * length m) =
         m @ [128] @ replicate 55 0 @ [0, 0, 0, 0, 0, 0, 0, 0]"
proof -
  have "length m mod 64 = 0" by (simp add: assms)
  moreover have "8 * length m = 2 ^ 32" by (simp add: assms)
  moreover have "padCount 0 = 56" by (simp add: padCount_def)
  ultimately show ?thesis
    by (simp only: take_56_padding lengthField_wraps append_assoc)
qed

lemma sha1_pad_512MiB:
  assumes "length m = 2 ^ 29"
  shows "sha1_pad m = m @ [128] @ replicate 55 0 @ [0, 0, 0, 1, 0, 0, 0, 0]"
proof -
  have "length m mod 64 = 0" by (simp add: assms)
  moreover have "8 * length m = 2 ^ 32" by (simp add: assms)
  moreover have "(119 - 0) mod 64 = (55 :: nat)" by simp
  ultimately show ?thesis
    unfolding sha1_pad_def by (simp only: sha1_be64_2_32)
qed

text \<open>
  Claim C1 says that the generator computes SHA-1 for every input. \<open>hash_is_sha1\<close> shows
  it for every input of fewer than \<open>2^29\<close> bytes. The loop that appends the length uses
  \<^verbatim>\<open>bitLength >>>= 8\<close>, which keeps 32 bits of the bit length, where the standard appends
  all 64. On the \<open>2^29\<close> zero bytes (bit length \<open>2^32\<close>) the generator therefore hashes
  the message followed by a length field of eight zero bytes, and the standard hashes it
  followed by the length field \<open>00 00 00 01 00 00 00 00\<close>.
\<close>

theorem digest_512MiB_length_field:
  "fst (digest (update (Bytes (replicate (2 ^ 29) 0)) None createHashGenerator)) =
     sha1_output (foldl sha1_compress sha1_H0 (sha1_blocks
       (replicate (2 ^ 29) 0 @ [128] @ replicate 55 0 @ [0, 0, 0, 0, 0, 0, 0, 0]))) \<and>
   sha1 (replicate (2 ^ 29) 0) =
     sha1_output (foldl sha1_compress sha1_H0 (sha1_blocks
       (replicate (2 ^ 29) 0 @ [128] @ replicate 55 0 @ [0, 0, 0, 1, 0, 0, 0, 0])))"
proof -
  let ?m = "replicate (2 ^ 29) (0 :: byte)"
  have l: "length ?m = 2 ^ 29" by (simp only: length_replicate)
  have tb: "toBytes (Bytes ?m) = ?m" by (simp only: toBytes_def hashInput.case)
  show ?thesis
    by (simp only: digest_as_sha1_chain tb code_padding_512MiB [OF l] sha1_def
        sha1_pad_512MiB [OF l] simp_thms)
qed

section \<open>Token derivation (auth.ts)\<close>

text \<open>
  What the functions read from the page: \<^verbatim>\<open>window.location.href\<close>,
  \<^verbatim>\<open>window.location.protocol\<close>, \<^verbatim>\<open>window.origin\<close> and the clock \<^verbatim>\<open>Date.now()\<close>
  (milliseconds since 1970, not negative).
\<close>

record page =
  locationHref :: string
  locationProtocol :: string
  windowOrigin :: string
  dateNow :: nat

datatype jsError = InvalidUrl string | InvalidProtocol string | TypeError

text \<open>\<^verbatim>\<open>s.indexOf(pat)\<close>: the first position where \<open>pat\<close> starts, \<open>None\<close> for -1.\<close>

fun indexOf :: "string \<Rightarrow> string \<Rightarrow> nat option" where
  "indexOf [] pat = (if pat = [] then Some 0 else None)"
| "indexOf (c # cs) pat =
     (if take (length pat) (c # cs) = pat then Some 0 else map_option Suc (indexOf cs pat))"

text \<open>\<^verbatim>\<open>\w\<close> or \<^verbatim>\<open>-\<close>: a letter, a digit, an underscore or a hyphen.\<close>

definition wordOrHyphen :: "char \<Rightarrow> bool" where
  "wordOrHyphen c =
     (let n = (of_char c :: nat) in
      (48 \<le> n \<and> n \<le> 57) \<or> (65 \<le> n \<and> n \<le> 90) \<or> (97 \<le> n \<and> n \<le> 122)
        \<or> n = 95 \<or> n = 45)"

definition validProtocols :: "string list" where
  "validProtocols =
     [''http'', ''https'', ''chrome-extension'', ''moz-extension'', ''file'', ''android-app'',
      ''chrome-search'', ''chrome-untrusted'', ''chrome'', ''app'', ''devtools'']"

text \<open>
  The last part of \<^verbatim>\<open>normalizeUrl\<close>: host and port of a URL whose protocol ends at
  \<open>i\<close>.
\<close>

definition hostAndPort :: "string \<Rightarrow> string \<Rightarrow> string" where
  "hostAndPort protocol rest =
     (let host = takeWhile (\<lambda>c. c \<noteq> CHR ''/'') rest in
      case indexOf host '':'' of
        None \<Rightarrow> protocol @ ''://'' @ host
      | Some j \<Rightarrow>
          (if (protocol = ''http'' \<and> drop (j + 1) host \<noteq> ''80'')
                \<or> (protocol = ''https'' \<and> drop (j + 1) host \<noteq> ''443'')
           then protocol @ ''://'' @ take j host @ '':'' @ drop (j + 1) host
           else protocol @ ''://'' @ take j host))"

definition extractOrigin :: "string \<Rightarrow> jsError + string" where
  "extractOrigin url =
     (case indexOf url ''://'' of
        None \<Rightarrow> Inl (InvalidUrl url)
      | Some i \<Rightarrow>
          (if take i url = [] then Inl (InvalidUrl url)
           else if take i url \<notin> set validProtocols then Inl (InvalidProtocol (take i url))
           else Inr (hostAndPort (take i url) (drop (i + 3) url))))"

text \<open>
  \<^verbatim>\<open>url.split("#")[0].split("?")[0]\<close>, then \<^verbatim>\<open>toLowerCase\<close>, the protocol-relative and
  the relative case.
\<close>

definition stripAndLower :: "string \<Rightarrow> string" where
  "stripAndLower url =
     toLowerCase (takeWhile (\<lambda>c. c \<noteq> CHR ''?'') (takeWhile (\<lambda>c. c \<noteq> CHR ''#'') url))"

definition absoluteUrl :: "page \<Rightarrow> string \<Rightarrow> string" where
  "absoluteUrl w url =
     (let url1 = (if take 2 url = ''//'' then locationProtocol w @ url else url) in
      if take 3 (dropWhile wordOrHyphen url1) = ''://'' then url1 else locationHref w)"

definition normalizeUrl :: "page \<Rightarrow> string \<Rightarrow> jsError + string" where
  "normalizeUrl w url =
     (if url = [] then Inr []
      else if url = ''about:blank'' \<or> url = ''about:srcdoc'' then Inr (windowOrigin w)
      else extractOrigin (absoluteUrl w
             (stripAndLower (if take 5 url = ''blob:'' then drop 5 url else url))))"

record authParam =
  key :: string
  val :: string

text \<open>
  \<^verbatim>\<open>AdditionalParams\<close>: an array of \<^verbatim>\<open>{key, value}\<close>, or anything that is not an array
  (\<^verbatim>\<open>null\<close> included).
\<close>

datatype additionalParams = NotAnArray | ParamArray "authParam list"

text \<open>\<^verbatim>\<open>Array.prototype.join\<close> on an array of strings.\<close>

fun join :: "string \<Rightarrow> string list \<Rightarrow> string" where
  "join sep [] = []"
| "join sep [x] = x"
| "join sep (x # y # ys) = x @ sep @ join sep (y # ys)"

text \<open>A non-negative integer as \<^verbatim>\<open>join\<close> writes it: in decimal.\<close>

definition digitChar :: "nat \<Rightarrow> char" where
  "digitChar d = ''0123456789'' ! d"

function numberToString :: "nat \<Rightarrow> string" where
  "numberToString n =
     (if n < 10 then [digitChar n]
      else numberToString (n div 10) @ [digitChar (n mod 10)])"
  by pat_completeness auto
termination
  by (relation "measure id") auto

definition timestampOf :: "page \<Rightarrow> nat" where
  "timestampOf w = dateNow w div 1000"

definition createAuthParams :: "page \<Rightarrow> string \<Rightarrow> string \<Rightarrow> additionalParams \<Rightarrow> string" where
  "createAuthParams w url token additionalParams =
     (case additionalParams of
        NotAnArray \<Rightarrow> calculateHash (join '' '' ([token, url] @ []))
      | ParamArray params \<Rightarrow>
          join ''_''
            ([numberToString (timestampOf w),
              calculateHash (join '' ''
                ((if map val params = []
                  then [numberToString (timestampOf w), token, url]
                  else [join '':'' (map val params), numberToString (timestampOf w), token, url])
                 @ []))]
             @ (if map key params \<noteq> [] then [join [] (map key params)] else [])))"

definition createAuthHash ::
  "page \<Rightarrow> string \<Rightarrow> string \<Rightarrow> additionalParams \<Rightarrow> jsError + string option" where
  "createAuthHash w token hashName additionalParams =
     (if locationHref w \<noteq> [] \<and> token \<noteq> [] \<and> hashName \<noteq> []
      then (case normalizeUrl w (locationHref w) of
              Inl e \<Rightarrow> Inl e
            | Inr url \<Rightarrow>
                Inr (Some (join '' '' [hashName, createAuthParams w url token additionalParams])))
      else Inr None)"

lemma normalizeUrl_empty: "normalizeUrl w [] = Inr []"
  by (simp add: normalizeUrl_def)

lemma join_empty_sep: "join [] xs = concat xs"
  by (induction "[] :: string" xs rule: join.induct) simp_all

lemmas url_eval = normalizeUrl_def stripAndLower_def toLowerCase_def toLowerChar_def
  absoluteUrl_def wordOrHyphen_def extractOrigin_def hostAndPort_def validProtocols_def
  char_of_def Let_def bit_0

text \<open>
  Claim C2. When \<^verbatim>\<open>additionalParams\<close> is not an array, and the secret, the label and the
  normalized origin of the page are non-empty, the token is the label, a space and the
  hash of the secret, a space and the origin.
\<close>

theorem token_without_params:
  assumes "token \<noteq> []" and "hashName \<noteq> []" and "url \<noteq> []"
    and "normalizeUrl w (locationHref w) = Inr url"
  shows "createAuthHash w token hashName NotAnArray =
           Inr (Some (hashName @ '' '' @ calculateHash (token @ '' '' @ url)))"
proof -
  have "locationHref w \<noteq> []"
    using assms(3,4) normalizeUrl_empty [of w] by auto
  with assms show ?thesis
    by (simp add: createAuthHash_def createAuthParams_def)
qed

theorem token_without_params_witness:
  "createAuthHash \<lparr>locationHref = ''https://Example.com:443/page?x=1#top'', locationProtocol = ''https:'',
       windowOrigin = ''https://example.com'', dateNow = 1700000000123\<rparr>
     ''S'' ''SAPISIDHASH'' NotAnArray =
   Inr (Some (''SAPISIDHASH '' @ calculateHash ''S https://example.com''))"
proof -
  let ?w = "\<lparr>locationHref = ''https://Example.com:443/page?x=1#top'', locationProtocol = ''https:'',
       windowOrigin = ''https://example.com'', dateNow = 1700000000123\<rparr>"
  have n: "normalizeUrl ?w (locationHref ?w) = Inr ''https://example.com''"
    by (simp add: url_eval)
  show ?thesis
    using token_without_params [of "''S''" "''SAPISIDHASH''" "''https://example.com''" ?w, OF _ _ _ n]
    by simp
qed

text \<open>
  Claim C3. When an array of parameters is given, the timestamp is the clock in whole
  seconds and the token is the label, a space, the timestamp, an underscore and the hash
  of: the values joined by colons and a space (only when there is a value), the
  timestamp, a space, the secret, a space, the origin. When the array is not empty, an
  underscore and the keys, one after the other, follow.
\<close>

theorem token_with_params:
  assumes "token \<noteq> []" and "hashName \<noteq> []" and "url \<noteq> []"
    and "normalizeUrl w (locationHref w) = Inr url"
  shows "createAuthHash w token hashName (ParamArray params) =
           Inr (Some (hashName @ '' '' @ numberToString (dateNow w div 1000) @ ''_''
             @ calculateHash
                 ((if params = [] then [] else join '':'' (map val params) @ '' '')
                    @ numberToString (dateNow w div 1000) @ '' '' @ token @ '' '' @ url)
             @ (if params = [] then [] else ''_'' @ concat (map key params))))"
proof -
  have "locationHref w \<noteq> []"
    using assms(3,4) normalizeUrl_empty [of w] by auto
  with assms show ?thesis
    by (simp add: createAuthHash_def createAuthParams_def timestampOf_def join_empty_sep)
qed


theorem token_with_params_witness:
  "createAuthHash \<lparr>locationHref = ''https://Example.com:443/page?x=1#top'', locationProtocol = ''https:'',
       windowOrigin = ''https://example.com'', dateNow = 1700000000123\<rparr>
     ''S'' ''SAPISIDHASH'' (ParamArray [\<lparr>key = ''k'', val = ''v''\<rparr>]) =
   Inr (Some (''SAPISIDHASH 1700000000_'' @ calculateHash ''v 1700000000 S https://example.com''
     @ ''_k''))"
proof -
  let ?w = "\<lparr>locationHref = ''https://Example.com:443/page?x=1#top'', locationProtocol = ''https:'',
       windowOrigin = ''https://example.com'', dateNow = 1700000000123\<rparr>"
  have n: "normalizeUrl ?w (locationHref ?w) = Inr ''https://example.com''"
    by (simp add: url_eval)
  show ?thesis
    using token_with_params [of "''S''" "''SAPISIDHASH''" "''https://example.com''" ?w
        "[\<lparr>key = ''k'', val = ''v''\<rparr>]", OF _ _ _ n]
    by (simp add: digitChar_def)
qed

section \<open>Credential discovery (new-prompt.ts, findApiKeys)\<close>

text \<open>The quote characters of the pattern: backtick, apostrophe, double quote.\<close>

definition isQuote :: "char \<Rightarrow> bool" where
  "isQuote c = (of_char c \<in> {96, 39, 34 :: nat})"

text \<open>\<^verbatim>\<open>\s\<close> on code units below 256: tab, line feed, vertical tab, form feed, carriage
  return, space and the no-break space.\<close>

definition isSpace :: "char \<Rightarrow> bool" where
  "isSpace c = (of_char c \<in> {9, 10, 11, 12, 13, 32, 160 :: nat})"

definition keyChar :: "char \<Rightarrow> bool" where
  "keyChar c = (\<not> isSpace c \<and> \<not> isQuote c)"

text \<open>
  \<^verbatim>\<open>src.match(/[`'"](AIzaSy([^\s`'"]*))[`'"]/g) ?? []\<close>: the matches from left to right,
  each starting after the end of the one before. After the prefix the longest run of key
  characters is taken; the run cannot be cut short, since a closing quote is no key
  character, so a start matches just when a quote follows the run.
\<close>

function matchKeys :: "string \<Rightarrow> string list" where
  "matchKeys [] = []"
| "matchKeys (c # cs) =
     (if isQuote c \<and> take 6 cs = ''AIzaSy''
          \<and> drop (6 + length (takeWhile keyChar (drop 6 cs))) cs \<noteq> []
          \<and> isQuote (hd (drop (6 + length (takeWhile keyChar (drop 6 cs))) cs))
      then (c # take (6 + length (takeWhile keyChar (drop 6 cs)) + 1) cs)
             # matchKeys (drop (6 + length (takeWhile keyChar (drop 6 cs)) + 1) cs)
      else matchKeys cs)"
  by pat_completeness auto
termination
  by (relation "measure length") auto

text \<open>\<^verbatim>\<open>m.replace(/[`'"]/g, "")\<close>\<close>

definition stripQuotes :: "string \<Rightarrow> string" where
  "stripQuotes m = filter (\<lambda>c. \<not> isQuote c) m"

text \<open>
  A JavaScript \<^verbatim>\<open>Set\<close> of strings is the list of its members in insertion order;
  \<^verbatim>\<open>add\<close> of a member leaves it as it is.
\<close>

definition setAdd :: "string list \<Rightarrow> string \<Rightarrow> string list" where
  "setAdd apiKeys k = (if k \<in> set apiKeys then apiKeys else apiKeys @ [k])"

text \<open>The body of \<^verbatim>\<open>match.forEach\<close>.\<close>

definition addMatch :: "string list \<Rightarrow> string list \<Rightarrow> string \<Rightarrow> string list" where
  "addMatch ignore apiKeys m =
     (if stripQuotes m \<notin> set ignore then setAdd apiKeys (stripQuotes m) else apiKeys)"

text \<open>
  \<^verbatim>\<open>findApiKeys(ignore)\<close> over the \<^verbatim>\<open>innerHTML\<close> of the document's script elements, in
  document order.
\<close>

definition findApiKeys :: "string list \<Rightarrow> string list \<Rightarrow> string list" where
  "findApiKeys scripts ignore =
     rev (foldl (\<lambda>apiKeys src. foldl (addMatch ignore) apiKeys (matchKeys src)) [] scripts)"

text \<open>Proof-side: every key the scan comes across, in the order of the scan.\<close>

definition discovered :: "string list \<Rightarrow> string list" where
  "discovered scripts = concat (map (\<lambda>src. map stripQuotes (matchKeys src)) scripts)"

lemma foldl_addMatch_flat:
  "foldl (\<lambda>apiKeys src. foldl (addMatch ignore) apiKeys (matchKeys src)) acc scripts =
   foldl (addMatch ignore) acc (concat (map matchKeys scripts))"
  by (induction scripts arbitrary: acc) simp_all

lemma remdups_drop_later: "x \<in> set zs \<Longrightarrow> remdups (ys @ x # zs) = remdups (ys @ zs)"
  by (induction ys) auto

lemma foldl_addMatch_rev:
  "distinct acc \<Longrightarrow> set acc \<inter> set ignore = {} \<Longrightarrow>
   rev (foldl (addMatch ignore) acc ms) =
   remdups (rev (acc @ filter (\<lambda>k. k \<notin> set ignore) (map stripQuotes ms)))"
proof (induction ms arbitrary: acc)
  case Nil
  then show ?case by (simp add: distinct_remdups_id)
next
  case (Cons m ms)
  show ?case
  proof (cases "stripQuotes m \<in> set ignore")
    case True
    with Cons show ?thesis by (simp add: addMatch_def)
  next
    case notign: False
    show ?thesis
    proof (cases "stripQuotes m \<in> set acc")
      case True
      then have "remdups (rev (acc @ stripQuotes m # xs)) = remdups (rev (acc @ xs))" for xs
        using remdups_drop_later [of "stripQuotes m" "rev acc" "rev xs"] by simp
      with True notign Cons show ?thesis
        by (simp add: addMatch_def setAdd_def)
    next
      case False
      then have "distinct (acc @ [stripQuotes m])" "set (acc @ [stripQuotes m]) \<inter> set ignore = {}"
        using Cons.prems notign by auto
      from Cons.IH [OF this] False notign show ?thesis
        by (simp add: addMatch_def setAdd_def)
    qed
  qed
qed

lemma findApiKeys_eq:
  "findApiKeys scripts ignore =
   remdups (rev (filter (\<lambda>k. k \<notin> set ignore) (discovered scripts)))"
proof -
  have "map stripQuotes (concat (map matchKeys scripts)) = discovered scripts"
    by (simp add: discovered_def map_concat comp_def)
  then show ?thesis
    using foldl_addMatch_rev [of "[]" ignore "concat (map matchKeys scripts)"]
    by (simp add: findApiKeys_def foldl_addMatch_flat)
qed

text \<open>
  Claim C9. The list \<^verbatim>\<open>findApiKeys\<close> returns has no key twice and no key of the
  exclusion list, its keys are the discovered keys outside the exclusion list, and it is
  in reverse order of discovery: it is the scan read backwards, where a key that the scan
  meets more than once stands at its first meeting (\<^const>\<open>remdups\<close> keeps the last
  occurrence of the reversed scan).
\<close>

theorem findApiKeys_distinct_reversed:
  "distinct (findApiKeys scripts ignore) \<and>
   set (findApiKeys scripts ignore) \<inter> set ignore = {} \<and>
   set (findApiKeys scripts ignore) = set (discovered scripts) - set ignore \<and>
   findApiKeys scripts ignore =
     remdups (rev (filter (\<lambda>k. k \<notin> set ignore) (discovered scripts)))"
  by (auto simp add: findApiKeys_eq)

lemma findApiKeys_excludes: "k \<in> set ignore \<Longrightarrow> k \<notin> set (findApiKeys scripts ignore)"
  by (simp add: findApiKeys_eq)

lemma matchKeys_example:
  "findApiKeys [''var a = \"AIzaSyA1\"; var b = 'AIzaSyB2'; x = `AIzaSyA1`;'', ''k(\"AIzaSyC3\")''] [] =
   [''AIzaSyC3'', ''AIzaSyB2'', ''AIzaSyA1'']"
  by (simp add: findApiKeys_def addMatch_def setAdd_def stripQuotes_def isQuote_def keyChar_def
      isSpace_def)

section \<open>The retry loop (new-prompt.ts, attemptRequestWithKeys)\<close>

text \<open>
  The module's variables \<^verbatim>\<open>cachedApiKeys\<close> and \<^verbatim>\<open>lastSuccessfulKey\<close> (\<open>None\<close> for
  \<^verbatim>\<open>null\<close>).
\<close>

record keyPool =
  cachedApiKeys :: "string list option"
  lastSuccessfulKey :: "string option"

text \<open>
  What one request ends with: \<^verbatim>\<open>onload\<close> with a status and the response text, or
  \<^verbatim>\<open>onerror\<close>. Every request is taken to end in one of the two. The world outside is a
  function of the number of requests sent so far: the answer to a request with a key, and
  the scripts of the document at that moment. One dispatch runs alone: nothing else
  writes the two variables while it runs. (A dispatch among other calls, and requests
  that are not answered, come further down.)
\<close>

datatype response = Loaded nat string | NetworkError

record network =
  respond :: "nat \<Rightarrow> string \<Rightarrow> response"
  scriptsAt :: "nat \<Rightarrow> string list"

text \<open>\<^verbatim>\<open>xhr.status >= 200 && xhr.status < 300\<close>\<close>

definition succeeded :: "response \<Rightarrow> bool" where
  "succeeded r = (case r of Loaded status body \<Rightarrow> 200 \<le> status \<and> status < 300
                  | NetworkError \<Rightarrow> False)"

definition responseText :: "response \<Rightarrow> string" where
  "responseText r = (case r of Loaded status body \<Rightarrow> body | NetworkError \<Rightarrow> [])"

text \<open>
  The promise is resolved with the response text (\<^verbatim>\<open>onSuccess\<close>) or rejected with
  "All API keys failed" (\<^verbatim>\<open>onError\<close>). Beside it the result records the variables as the
  dispatch leaves them, the keys of the requests sent, in order, and the pools that
  \<^verbatim>\<open>findApiKeys([currentKey])\<close> returned.
\<close>

datatype outcome = Resolved string | Rejected

record dispatch =
  outcome :: outcome
  pool :: keyPool
  tried :: "string list"
  refreshes :: "string list list"

definition sent :: "string \<Rightarrow> dispatch \<Rightarrow> dispatch" where
  "sent currentKey d = d\<lparr>tried := currentKey # tried d\<rparr>"

definition refreshedWith :: "string list \<Rightarrow> dispatch \<Rightarrow> dispatch" where
  "refreshedWith keys d = d\<lparr>refreshes := keys # refreshes d\<rparr>"

text \<open>\<^verbatim>\<open>cachedApiKeys = findApiKeys([currentKey]); lastSuccessfulKey = null\<close>\<close>

definition refresh :: "network \<Rightarrow> nat \<Rightarrow> string \<Rightarrow> keyPool \<Rightarrow> keyPool" where
  "refresh net t currentKey st =
     st\<lparr>cachedApiKeys := Some (findApiKeys (scriptsAt net t) [currentKey]),
        lastSuccessfulKey := None\<rparr>"

text \<open>
  \<^verbatim>\<open>attemptRequestWithKeys(keyIndex, keys, onSuccess, onError)\<close>; \<open>t\<close> counts the requests
  sent before this one. The handlers \<^verbatim>\<open>onload\<close> (status outside 200..299) and
  \<^verbatim>\<open>onerror\<close> have the same body.
\<close>

function attemptRequestWithKeys ::
  "network \<Rightarrow> nat \<Rightarrow> nat \<Rightarrow> string list \<Rightarrow> keyPool \<Rightarrow> dispatch" where
  "attemptRequestWithKeys net t keyIndex keys st =
     (if keyIndex \<ge> length keys
      then \<lparr>outcome = Rejected, pool = st, tried = [], refreshes = []\<rparr>
      else if succeeded (respond net t (keys ! keyIndex))
      then \<lparr>outcome = Resolved (responseText (respond net t (keys ! keyIndex))),
             pool = st\<lparr>lastSuccessfulKey := Some (keys ! keyIndex)\<rparr>,
             tried = [keys ! keyIndex], refreshes = []\<rparr>
      else if Some (keys ! keyIndex) = lastSuccessfulKey st
      then (if findApiKeys (scriptsAt net t) [keys ! keyIndex] \<noteq> []
            then sent (keys ! keyIndex)
                   (refreshedWith (findApiKeys (scriptsAt net t) [keys ! keyIndex])
                     (attemptRequestWithKeys net (t + 1) 0
                        (findApiKeys (scriptsAt net t) [keys ! keyIndex])
                        (refresh net t (keys ! keyIndex) st)))
            else sent (keys ! keyIndex)
                   (refreshedWith (findApiKeys (scriptsAt net t) [keys ! keyIndex])
                     (attemptRequestWithKeys net (t + 1) (keyIndex + 1) keys
                        (refresh net t (keys ! keyIndex) st))))
      else sent (keys ! keyIndex)
             (attemptRequestWithKeys net (t + 1) (keyIndex + 1) keys st))"
  by pat_completeness auto
termination
  by (relation "measures
        [\<lambda>(net, t, keyIndex, keys, st). if lastSuccessfulKey st = None then 0 else 1,
         \<lambda>(net, t, keyIndex, keys, st). length keys - keyIndex]")
    (auto simp add: refresh_def)

text \<open>
  The list \<^verbatim>\<open>sendMakerSuiteRequest\<close> starts the loop with: the cached keys, the last
  successful one first when it is among them.
\<close>

definition keysToTry :: "keyPool \<Rightarrow> string list \<Rightarrow> string list" where
  "keysToTry st cached =
     (case lastSuccessfulKey st of
        None \<Rightarrow> cached
      | Some k \<Rightarrow> if k \<noteq> [] \<and> k \<in> set cached then k # filter (\<lambda>key. key \<noteq> k) cached
                  else cached)"

declare attemptRequestWithKeys.simps [simp del]

lemma attempt_bounds:
  "length (refreshes (attemptRequestWithKeys net t keyIndex keys st))
     \<le> (if lastSuccessfulKey st = None then 0 else 1) \<and>
   length (tried (attemptRequestWithKeys net t keyIndex keys st))
     \<le> (length keys - keyIndex)
         + sum_list (map length (refreshes (attemptRequestWithKeys net t keyIndex keys st)))"
proof (induction net t keyIndex keys st rule: attemptRequestWithKeys.induct)
  case (1 net t keyIndex keys st)
  let ?k = "keys ! keyIndex"
  let ?p = "findApiKeys (scriptsAt net t) [?k]"
  show ?case
  proof (cases "keyIndex \<ge> length keys")
    case True
    then show ?thesis by (simp add: attemptRequestWithKeys.simps [of net t keyIndex keys st])
  next
    case inr: False
    show ?thesis
    proof (cases "succeeded (respond net t ?k)")
      case True
      with inr show ?thesis
        by (simp add: attemptRequestWithKeys.simps [of net t keyIndex keys st])
    next
      case failed: False
      show ?thesis
      proof (cases "Some ?k = lastSuccessfulKey st")
        case last: True
        have cleared: "lastSuccessfulKey (refresh net t ?k st) = None"
          by (simp add: refresh_def)
        show ?thesis
        proof (cases "?p \<noteq> []")
          case True
          from "1.IH"(1) [OF inr failed last True] cleared inr failed last [symmetric] True
          show ?thesis
            by (auto simp add: attemptRequestWithKeys.simps [of net t keyIndex keys st]
                sent_def refreshedWith_def)
        next
          case False
          from "1.IH"(2) [OF inr failed last False] cleared inr failed last [symmetric] False
          show ?thesis
            by (auto simp add: attemptRequestWithKeys.simps [of net t keyIndex keys st]
                sent_def refreshedWith_def)
        qed
      next
        case False
        from "1.IH"(3) [OF inr failed False] inr failed False show ?thesis
          by (auto simp add: attemptRequestWithKeys.simps [of net t keyIndex keys st]
              sent_def split: if_splits)
      qed
    qed
  qed
qed

lemma attempt_outcome:
  "(case outcome (attemptRequestWithKeys net t keyIndex keys st) of
      Resolved body \<Rightarrow>
        tried (attemptRequestWithKeys net t keyIndex keys st) \<noteq> [] \<and>
        lastSuccessfulKey (pool (attemptRequestWithKeys net t keyIndex keys st)) =
          Some (last (tried (attemptRequestWithKeys net t keyIndex keys st)))
    | Rejected \<Rightarrow>
        lastSuccessfulKey (pool (attemptRequestWithKeys net t keyIndex keys st)) = None \<or>
        lastSuccessfulKey (pool (attemptRequestWithKeys net t keyIndex keys st)) =
          lastSuccessfulKey st)"
proof (induction net t keyIndex keys st rule: attemptRequestWithKeys.induct)
  case (1 net t keyIndex keys st)
  let ?k = "keys ! keyIndex"
  let ?p = "findApiKeys (scriptsAt net t) [?k]"
  show ?case
  proof (cases "keyIndex \<ge> length keys")
    case True
    then show ?thesis by (simp add: attemptRequestWithKeys.simps [of net t keyIndex keys st])
  next
    case inr: False
    show ?thesis
    proof (cases "succeeded (respond net t ?k)")
      case True
      with inr show ?thesis
        by (simp add: attemptRequestWithKeys.simps [of net t keyIndex keys st])
    next
      case failed: False
      show ?thesis
      proof (cases "Some ?k = lastSuccessfulKey st")
        case last: True
        have cleared: "lastSuccessfulKey (refresh net t ?k st) = None"
          by (simp add: refresh_def)
        show ?thesis
        proof (cases "?p \<noteq> []")
          case True
          from "1.IH"(1) [OF inr failed last True] cleared inr failed last True show ?thesis
            by (auto simp add: attemptRequestWithKeys.simps [of net t keyIndex keys st]
                sent_def refreshedWith_def split: outcome.splits)
        next
          case False
          from "1.IH"(2) [OF inr failed last False] cleared inr failed last False show ?thesis
            by (auto simp add: attemptRequestWithKeys.simps [of net t keyIndex keys st]
                sent_def refreshedWith_def split: outcome.splits)
        qed
      next
        case False
        from "1.IH"(3) [OF inr failed False] inr failed False show ?thesis
          by (auto simp add: attemptRequestWithKeys.simps [of net t keyIndex keys st]
              sent_def split: outcome.splits)
      qed
    qed
  qed
qed

lemma tried_first:
  "keyIndex < length keys \<Longrightarrow>
   take 1 (tried (attemptRequestWithKeys net t keyIndex keys st)) = [keys ! keyIndex]"
  by (subst attemptRequestWithKeys.simps) (simp add: sent_def refreshedWith_def)

lemma attempt_exhausted:
  "length keys \<le> keyIndex \<Longrightarrow>
   attemptRequestWithKeys net t keyIndex keys st =
     \<lparr>outcome = Rejected, pool = st, tried = [], refreshes = []\<rparr>"
  by (subst attemptRequestWithKeys.simps) simp

text \<open>
  Claim C4. Let the request with the key \<open>X\<close> at \<open>keyIndex\<close> fail while \<open>X\<close> is the last
  successful key. Then the keys are discovered anew without \<open>X\<close> (the new pool \<open>P\<close> does not
  contain \<open>X\<close> and becomes \<^verbatim>\<open>cachedApiKeys\<close>), \<^verbatim>\<open>lastSuccessfulKey\<close> is cleared, and the
  loop goes on from index 0 of \<open>P\<close> when \<open>P\<close> is not empty, and from index
  \<open>keyIndex + 1\<close> of the old list otherwise: the next request uses \<open>P ! 0\<close>, or
  \<open>keys ! (keyIndex + 1)\<close>, or there is none and the dispatch is rejected.
\<close>

theorem refresh_on_failed_trusted_key:
  assumes "keyIndex < length keys"
    and "lastSuccessfulKey st = Some (keys ! keyIndex)"
    and "\<not> succeeded (respond net t (keys ! keyIndex))"
  shows
    "let X = keys ! keyIndex;
         P = findApiKeys (scriptsAt net t) [X];
         st' = st\<lparr>cachedApiKeys := Some P, lastSuccessfulKey := None\<rparr>;
         r = attemptRequestWithKeys net t keyIndex keys st
     in X \<notin> set P \<and>
        r = sent X (refreshedWith P
              (if P \<noteq> [] then attemptRequestWithKeys net (t + 1) 0 P st'
               else attemptRequestWithKeys net (t + 1) (keyIndex + 1) keys st')) \<and>
        take 1 (refreshes r) = [P] \<and>
        (if P \<noteq> [] then take 2 (tried r) = [X, P ! 0]
         else if keyIndex + 1 < length keys then take 2 (tried r) = [X, keys ! (keyIndex + 1)]
         else tried r = [X] \<and> outcome r = Rejected)"
proof -
  define X where "X = keys ! keyIndex"
  define P where "P = findApiKeys (scriptsAt net t) [X]"
  define st' where "st' = st\<lparr>cachedApiKeys := Some P, lastSuccessfulKey := None\<rparr>"
  define r where "r = attemptRequestWithKeys net t keyIndex keys st"
  define c where "c = (if P \<noteq> [] then attemptRequestWithKeys net (t + 1) 0 P st'
      else attemptRequestWithKeys net (t + 1) (keyIndex + 1) keys st')"
  have notin: "X \<notin> set P"
    unfolding P_def by (rule findApiKeys_excludes) simp
  have step: "r = sent X (refreshedWith P c)"
    unfolding r_def c_def
    using assms
    by (subst attemptRequestWithKeys.simps)
      (simp add: X_def [symmetric] P_def [symmetric] refresh_def st'_def)
  have tr: "tried r = X # tried c" and rf: "refreshes r = P # refreshes c"
    and oc: "outcome r = outcome c"
    by (simp_all add: step sent_def refreshedWith_def)
  have nxt: "if P \<noteq> [] then take 2 (tried r) = [X, P ! 0]
      else if keyIndex + 1 < length keys then take 2 (tried r) = [X, keys ! (keyIndex + 1)]
      else tried r = [X] \<and> outcome r = Rejected"
  proof (cases "P \<noteq> []")
    case True
    then have "take 1 (tried c) = [P ! 0]"
      unfolding c_def using tried_first [of 0 P net "t + 1" st'] by simp
    then have "take (Suc 1) (X # tried c) = [X, P ! 0]"
      by (simp only: take_Suc_Cons)
    with True tr show ?thesis by (simp add: numeral_2_eq_2)
  next
    case empty: False
    show ?thesis
    proof (cases "keyIndex + 1 < length keys")
      case True
      then have "take 1 (tried c) = [keys ! (keyIndex + 1)]"
        unfolding c_def using empty tried_first [of "keyIndex + 1" keys net "t + 1" st'] by simp
      then have "take (Suc 1) (X # tried c) = [X, keys ! (keyIndex + 1)]"
        by (simp only: take_Suc_Cons)
      with True empty tr show ?thesis by (simp add: numeral_2_eq_2)
    next
      case False
      then have "c = \<lparr>outcome = Rejected, pool = st', tried = [], refreshes = []\<rparr>"
        unfolding c_def using empty attempt_exhausted [of keys "keyIndex + 1" net "t + 1" st']
        by simp
      with False empty tr oc show ?thesis by simp
    qed
  qed
  show ?thesis
    unfolding Let_def X_def [symmetric] P_def [symmetric] st'_def [symmetric] r_def [symmetric]
      c_def [symmetric]
    using notin step rf nxt by simp
qed

definition exampleNet :: network where
  "exampleNet =
     \<lparr>respond = (\<lambda>t k. if k = ''AIzaSyNEW'' then Loaded 200 ''ok'' else Loaded 403 []),
      scriptsAt = (\<lambda>t. [''a = \"AIzaSyOLD\"; b = \"AIzaSyNEW\";''])\<rparr>"

lemmas scan_eval = findApiKeys_def addMatch_def setAdd_def stripQuotes_def isQuote_def
  keyChar_def isSpace_def

theorem refresh_on_failed_trusted_key_witness:
  "''AIzaSyOLD'' \<notin> set (findApiKeys (scriptsAt exampleNet 0) [''AIzaSyOLD'']) \<and>
   take 1 (refreshes (attemptRequestWithKeys exampleNet 0 0 [''AIzaSyOLD'', ''AIzaSyB'']
     \<lparr>cachedApiKeys = Some [''AIzaSyOLD'', ''AIzaSyB''],
        lastSuccessfulKey = Some ''AIzaSyOLD''\<rparr>)) = [[''AIzaSyNEW'']] \<and>
   take 2 (tried (attemptRequestWithKeys exampleNet 0 0 [''AIzaSyOLD'', ''AIzaSyB'']
     \<lparr>cachedApiKeys = Some [''AIzaSyOLD'', ''AIzaSyB''],
        lastSuccessfulKey = Some ''AIzaSyOLD''\<rparr>)) = [''AIzaSyOLD'', ''AIzaSyNEW'']"
proof -
  have p: "findApiKeys (scriptsAt exampleNet 0) [''AIzaSyOLD''] = [''AIzaSyNEW'']"
    by (simp add: exampleNet_def scan_eval)
  have f: "\<not> succeeded (respond exampleNet 0 ([''AIzaSyOLD'', ''AIzaSyB''] ! 0))"
    by (simp add: exampleNet_def succeeded_def)
  have a: "0 < length [''AIzaSyOLD'', ''AIzaSyB'']"
    and b: "lastSuccessfulKey \<lparr>cachedApiKeys = Some [''AIzaSyOLD'', ''AIzaSyB''],
        lastSuccessfulKey = Some ''AIzaSyOLD''\<rparr> = Some ([''AIzaSyOLD'', ''AIzaSyB''] ! 0)"
    by simp_all
  note th = refresh_on_failed_trusted_key [OF a b f, unfolded Let_def]
  have x: "[''AIzaSyOLD'', ''AIzaSyB''] ! 0 = ''AIzaSyOLD''" by simp
  from th have "''AIzaSyOLD'' \<notin> set (findApiKeys (scriptsAt exampleNet 0) [''AIzaSyOLD''])"
    unfolding x by blast
  moreover from th have "take 1 (refreshes (attemptRequestWithKeys exampleNet 0 0
      [''AIzaSyOLD'', ''AIzaSyB'']
      \<lparr>cachedApiKeys = Some [''AIzaSyOLD'', ''AIzaSyB''],
         lastSuccessfulKey = Some ''AIzaSyOLD''\<rparr>)) = [[''AIzaSyNEW'']]"
    unfolding x p by blast
  moreover from th [THEN conjunct2, THEN conjunct2, THEN conjunct2]
  have "take 2 (tried (attemptRequestWithKeys exampleNet 0 0
      [''AIzaSyOLD'', ''AIzaSyB'']
      \<lparr>cachedApiKeys = Some [''AIzaSyOLD'', ''AIzaSyB''],
         lastSuccessfulKey = Some ''AIzaSyOLD''\<rparr>)) = [''AIzaSyOLD'', ''AIzaSyNEW'']"
    unfolding x p by simp
  ultimately show ?thesis by blast
qed

subsection \<open>A dispatch among others\<close>

text \<open>
  \<^verbatim>\<open>cachedApiKeys\<close> and \<^verbatim>\<open>lastSuccessfulKey\<close> are variables of the module, and the
  handlers read them when the response arrives. Between \<^verbatim>\<open>xhr.send\<close> and the handler,
  the handlers of other calls of \<^verbatim>\<open>sendMakerSuiteRequest\<close> may run and write them
  (\<^verbatim>\<open>lastSuccessfulKey = currentKey\<close> in \<^verbatim>\<open>onload\<close>, or a refresh of their own); and no
  timeout is set, so a request may never be answered. The surroundings of a dispatch say
  both, for the request sent as number \<open>t\<close>: whether it is answered, and what the others do
  to the variables while it is under way.
\<close>

record surroundings =
  answered :: "nat \<Rightarrow> bool"
  meanwhile :: "nat \<Rightarrow> keyPool \<Rightarrow> keyPool"

text \<open>
  \<^verbatim>\<open>attemptRequestWithKeys\<close> in these surroundings. The result is \<open>None\<close> when the promise
  is not settled within \<open>fuel\<close> calls; it is never settled when a request is not answered.
\<close>

fun attemptRequestWithKeysAmongOthers ::
  "nat \<Rightarrow> network \<Rightarrow> surroundings \<Rightarrow> nat \<Rightarrow> nat \<Rightarrow> string list \<Rightarrow> keyPool \<Rightarrow> dispatch option"
where
  "attemptRequestWithKeysAmongOthers 0 net env t keyIndex keys st = None"
| "attemptRequestWithKeysAmongOthers (Suc fuel) net env t keyIndex keys st =
     (if keyIndex \<ge> length keys
      then Some \<lparr>outcome = Rejected, pool = st, tried = [], refreshes = []\<rparr>
      else if \<not> answered env t
      then None
      else if succeeded (respond net t (keys ! keyIndex))
      then Some \<lparr>outcome = Resolved (responseText (respond net t (keys ! keyIndex))),
                  pool = (meanwhile env t st)\<lparr>lastSuccessfulKey := Some (keys ! keyIndex)\<rparr>,
                  tried = [keys ! keyIndex], refreshes = []\<rparr>
      else if Some (keys ! keyIndex) = lastSuccessfulKey (meanwhile env t st)
      then (if findApiKeys (scriptsAt net t) [keys ! keyIndex] \<noteq> []
            then map_option
                   (sent (keys ! keyIndex) \<circ>
                    refreshedWith (findApiKeys (scriptsAt net t) [keys ! keyIndex]))
                   (attemptRequestWithKeysAmongOthers fuel net env (t + 1) 0
                      (findApiKeys (scriptsAt net t) [keys ! keyIndex])
                      (refresh net t (keys ! keyIndex) (meanwhile env t st)))
            else map_option
                   (sent (keys ! keyIndex) \<circ>
                    refreshedWith (findApiKeys (scriptsAt net t) [keys ! keyIndex]))
                   (attemptRequestWithKeysAmongOthers fuel net env (t + 1) (keyIndex + 1) keys
                      (refresh net t (keys ! keyIndex) (meanwhile env t st))))
      else map_option (sent (keys ! keyIndex))
             (attemptRequestWithKeysAmongOthers fuel net env (t + 1) (keyIndex + 1) keys
                (meanwhile env t st)))"

text \<open>
  The dispatch runs alone when every request is answered and nothing else writes the
  variables.
\<close>

definition alone :: "surroundings \<Rightarrow> bool" where
  "alone env \<longleftrightarrow> (\<forall>t. answered env t) \<and> (\<forall>t st. meanwhile env t st = st)"

definition undisturbed :: surroundings where
  "undisturbed = \<lparr>answered = (\<lambda>t. True), meanwhile = (\<lambda>t st. st)\<rparr>"

text \<open>
  Two keys in the page, and a request that fails with whatever key (a payload the
  service refuses). While the second request is under way another call succeeds with
  \<^verbatim>\<open>AIzaSyB\<close>, while the third is under way another succeeds with \<^verbatim>\<open>AIzaSyA\<close>.
\<close>

definition refusingNet :: network where
  "refusingNet =
     \<lparr>respond = (\<lambda>t k. Loaded 400 []),
      scriptsAt = (\<lambda>t. [''a = \"AIzaSyA\"; b = \"AIzaSyB\";''])\<rparr>"

definition otherCalls :: surroundings where
  "otherCalls =
     \<lparr>answered = (\<lambda>t. True),
      meanwhile = (\<lambda>t st. if t = 1 then st\<lparr>lastSuccessfulKey := Some ''AIzaSyB''\<rparr>
                          else if t = 2 then st\<lparr>lastSuccessfulKey := Some ''AIzaSyA''\<rparr>
                          else st)\<rparr>"

definition unanswered :: surroundings where
  "unanswered = \<lparr>answered = (\<lambda>t. False), meanwhile = (\<lambda>t st. st)\<rparr>"

definition trustingA :: keyPool where
  "trustingA = \<lparr>cachedApiKeys = Some [''AIzaSyB'', ''AIzaSyA''],
                 lastSuccessfulKey = Some ''AIzaSyA''\<rparr>"



lemma refusingNet_scripts: "scriptsAt refusingNet t = [''a = \"AIzaSyA\"; b = \"AIzaSyB\";'']"
  by (simp add: refusingNet_def)

lemma refusingNet_refuses: "succeeded (respond refusingNet t k) = False"
  by (simp add: refusingNet_def succeeded_def)

lemma refusingNet_without_A:
  "findApiKeys [''a = \"AIzaSyA\"; b = \"AIzaSyB\";''] [''AIzaSyA''] = [''AIzaSyB'']"
  by (simp add: scan_eval)

lemma refusingNet_without_B:
  "findApiKeys [''a = \"AIzaSyA\"; b = \"AIzaSyB\";''] [''AIzaSyB''] = [''AIzaSyA'']"
  by (simp add: scan_eval)

lemmas among_eval =
  refusingNet_scripts refusingNet_refuses refusingNet_without_A refusingNet_without_B
  otherCalls_def refresh_def sent_def refreshedWith_def trustingA_def

lemma attempt_resolved_tried:
  "outcome (attemptRequestWithKeys net t keyIndex keys st) = Resolved body \<Longrightarrow>
   tried (attemptRequestWithKeys net t keyIndex keys st) \<noteq> []"
  using attempt_outcome [of net t keyIndex keys st] by simp

lemma attempt_cleared_no_refresh:
  "lastSuccessfulKey st = None \<Longrightarrow>
   refreshes (attemptRequestWithKeys net t keyIndex keys st) = []"
  using attempt_bounds [of net t keyIndex keys st] by simp

lemma attempt_only_last_succeeds:
  "j < length (tried (attemptRequestWithKeys net t keyIndex keys st)) \<Longrightarrow>
   succeeded (respond net (t + j) (tried (attemptRequestWithKeys net t keyIndex keys st) ! j))
   \<longleftrightarrow> (outcome (attemptRequestWithKeys net t keyIndex keys st) \<noteq> Rejected \<and>
        Suc j = length (tried (attemptRequestWithKeys net t keyIndex keys st)))"
proof (induction net t keyIndex keys st arbitrary: j rule: attemptRequestWithKeys.induct)
  case (1 net t keyIndex keys st)
  let ?k = "keys ! keyIndex"
  let ?p = "findApiKeys (scriptsAt net t) [?k]"
  have tail: "succeeded (respond net (t + j) ((?k # tried d) ! j))
      \<longleftrightarrow> (outcome d \<noteq> Rejected \<and> Suc j = length (?k # tried d))"
    if f: "\<not> succeeded (respond net t ?k)"
      and nonempty: "outcome d \<noteq> Rejected \<Longrightarrow> tried d \<noteq> []"
      and ih: "\<And>j'. j' < length (tried d) \<Longrightarrow>
        succeeded (respond net (t + 1 + j') (tried d ! j'))
        \<longleftrightarrow> (outcome d \<noteq> Rejected \<and> Suc j' = length (tried d))"
      and j: "j < length (?k # tried d)"
    for d
  proof (cases j)
    case 0
    with f nonempty show ?thesis by auto
  next
    case (Suc j')
    with j have "j' < length (tried d)" by simp
    from ih [OF this] Suc show ?thesis by simp
  qed
  have ne: "outcome d \<noteq> Rejected \<Longrightarrow> tried d \<noteq> []"
    if "d = attemptRequestWithKeys net' t' i' keys' st'" for d net' t' i' keys' st'
    using attempt_resolved_tried [of net' t' i' keys' st'] that by (cases "outcome d") auto
  show ?case
  proof (cases "keyIndex \<ge> length keys")
    case True
    with "1.prems" show ?thesis
      by (simp add: attemptRequestWithKeys.simps [of net t keyIndex keys st])
  next
    case inr: False
    show ?thesis
    proof (cases "succeeded (respond net t ?k)")
      case True
      with inr "1.prems" show ?thesis
        by (simp add: attemptRequestWithKeys.simps [of net t keyIndex keys st])
    next
      case failed: False
      show ?thesis
      proof (cases "Some ?k = lastSuccessfulKey st")
        case last: True
        show ?thesis
        proof (cases "?p \<noteq> []")
          case True
          let ?d = "attemptRequestWithKeys net (t + 1) 0 ?p (refresh net t ?k st)"
          have eq: "attemptRequestWithKeys net t keyIndex keys st
              = sent ?k (refreshedWith ?p ?d)"
            using inr failed last True
            by (simp add: attemptRequestWithKeys.simps [of net t keyIndex keys st])
          from "1.prems" have j: "j < length (?k # tried ?d)"
            by (simp add: eq sent_def refreshedWith_def)
          from tail [OF failed ne [OF refl] "1.IH"(1) [OF inr failed last True] j]
          show ?thesis by (simp add: eq sent_def refreshedWith_def)
        next
          case False
          let ?d = "attemptRequestWithKeys net (t + 1) (keyIndex + 1) keys (refresh net t ?k st)"
          have eq: "attemptRequestWithKeys net t keyIndex keys st
              = sent ?k (refreshedWith ?p ?d)"
            using inr failed last False
            by (simp add: attemptRequestWithKeys.simps [of net t keyIndex keys st])
          from "1.prems" have j: "j < length (?k # tried ?d)"
            by (simp add: eq sent_def refreshedWith_def)
          from tail [OF failed ne [OF refl] "1.IH"(2) [OF inr failed last False] j]
          show ?thesis by (simp add: eq sent_def refreshedWith_def)
        qed
      next
        case False
        let ?d = "attemptRequestWithKeys net (t + 1) (keyIndex + 1) keys st"
        have eq: "attemptRequestWithKeys net t keyIndex keys st = sent ?k ?d"
          using inr failed False
          by (simp add: attemptRequestWithKeys.simps [of net t keyIndex keys st])
        from "1.prems" have j: "j < length (?k # tried ?d)"
          by (simp add: eq sent_def)
        from tail [OF failed ne [OF refl] "1.IH"(3) [OF inr failed False] j]
        show ?thesis by (simp add: eq sent_def)
      qed
    qed
  qed
qed

lemma attempt_resolved_body:
  "outcome (attemptRequestWithKeys net t keyIndex keys st) = Resolved body \<Longrightarrow>
   body = responseText (respond net
     (t + length (tried (attemptRequestWithKeys net t keyIndex keys st)) - 1)
     (last (tried (attemptRequestWithKeys net t keyIndex keys st))))"
proof (induction net t keyIndex keys st rule: attemptRequestWithKeys.induct)
  case (1 net t keyIndex keys st)
  let ?k = "keys ! keyIndex"
  let ?p = "findApiKeys (scriptsAt net t) [?k]"
  have tail: "body = responseText (respond net (t + length (?k # tried d) - 1)
      (last (?k # tried d)))"
    if "outcome d = Resolved body" and "tried d \<noteq> []"
      and "body = responseText (respond net (t + 1 + length (tried d) - 1) (last (tried d)))"
    for d
    using that by simp
  show ?case
  proof (cases "keyIndex \<ge> length keys")
    case True
    with "1.prems" show ?thesis
      by (simp add: attemptRequestWithKeys.simps [of net t keyIndex keys st])
  next
    case inr: False
    show ?thesis
    proof (cases "succeeded (respond net t ?k)")
      case True
      with inr "1.prems" show ?thesis
        by (simp add: attemptRequestWithKeys.simps [of net t keyIndex keys st])
    next
      case failed: False
      show ?thesis
      proof (cases "Some ?k = lastSuccessfulKey st")
        case last: True
        show ?thesis
        proof (cases "?p \<noteq> []")
          case True
          let ?d = "attemptRequestWithKeys net (t + 1) 0 ?p (refresh net t ?k st)"
          have eq: "attemptRequestWithKeys net t keyIndex keys st
              = sent ?k (refreshedWith ?p ?d)"
            using inr failed last True
            by (simp add: attemptRequestWithKeys.simps [of net t keyIndex keys st])
          from "1.prems" have r: "outcome ?d = Resolved body"
            by (simp add: eq sent_def refreshedWith_def)
          from tail [OF r attempt_resolved_tried [OF r] "1.IH"(1) [OF inr failed last True r]]
          show ?thesis by (simp add: eq sent_def refreshedWith_def)
        next
          case False
          let ?d = "attemptRequestWithKeys net (t + 1) (keyIndex + 1) keys (refresh net t ?k st)"
          have eq: "attemptRequestWithKeys net t keyIndex keys st
              = sent ?k (refreshedWith ?p ?d)"
            using inr failed last False
            by (simp add: attemptRequestWithKeys.simps [of net t keyIndex keys st])
          from "1.prems" have r: "outcome ?d = Resolved body"
            by (simp add: eq sent_def refreshedWith_def)
          from tail [OF r attempt_resolved_tried [OF r] "1.IH"(2) [OF inr failed last False r]]
          show ?thesis by (simp add: eq sent_def refreshedWith_def)
        qed
      next
        case False
        let ?d = "attemptRequestWithKeys net (t + 1) (keyIndex + 1) keys st"
        have eq: "attemptRequestWithKeys net t keyIndex keys st = sent ?k ?d"
          using inr failed False
          by (simp add: attemptRequestWithKeys.simps [of net t keyIndex keys st])
        from "1.prems" have r: "outcome ?d = Resolved body"
          by (simp add: eq sent_def)
        from tail [OF r attempt_resolved_tried [OF r] "1.IH"(3) [OF inr failed False r]]
        show ?thesis by (simp add: eq sent_def)
      qed
    qed
  qed
qed

text \<open>
  The keys a rejected dispatch has tried: the list from \<open>keyIndex\<close> on to its end, or, when
  the pool was refreshed to a pool \<open>P\<close> that is not empty, the list up to the key that
  caused the refresh and then the whole of \<open>P\<close>.
\<close>

definition exhausted :: "nat \<Rightarrow> string list \<Rightarrow> dispatch \<Rightarrow> bool" where
  "exhausted keyIndex keys d \<longleftrightarrow>
     (case refreshes d of
        [] \<Rightarrow> tried d = drop keyIndex keys
      | P # others \<Rightarrow>
          others = [] \<and>
          (if P = [] then tried d = drop keyIndex keys
           else \<exists>m \<in> {keyIndex ..< length keys}.
                  tried d = take (Suc m - keyIndex) (drop keyIndex keys) @ P))"

lemma attempt_rejected_exhausted:
  "outcome (attemptRequestWithKeys net t keyIndex keys st) = Rejected \<Longrightarrow>
   exhausted keyIndex keys (attemptRequestWithKeys net t keyIndex keys st)"
proof (induction net t keyIndex keys st rule: attemptRequestWithKeys.induct)
  case (1 net t keyIndex keys st)
  let ?k = "keys ! keyIndex"
  let ?p = "findApiKeys (scriptsAt net t) [?k]"
  have cleared: "lastSuccessfulKey (refresh net t ?k st) = None"
    by (simp add: refresh_def)
  show ?case
  proof (cases "keyIndex \<ge> length keys")
    case True
    then show ?thesis
      by (simp add: attemptRequestWithKeys.simps [of net t keyIndex keys st] exhausted_def)
  next
    case inr: False
    then have dr: "drop keyIndex keys = ?k # drop (Suc keyIndex) keys"
      by (simp add: Cons_nth_drop_Suc)
    show ?thesis
    proof (cases "succeeded (respond net t ?k)")
      case True
      with inr "1.prems" show ?thesis
        by (simp add: attemptRequestWithKeys.simps [of net t keyIndex keys st])
    next
      case failed: False
      show ?thesis
      proof (cases "Some ?k = lastSuccessfulKey st")
        case last: True
        show ?thesis
        proof (cases "?p \<noteq> []")
          case True
          let ?d = "attemptRequestWithKeys net (t + 1) 0 ?p (refresh net t ?k st)"
          have eq: "attemptRequestWithKeys net t keyIndex keys st
              = sent ?k (refreshedWith ?p ?d)"
            using inr failed last True
            by (simp add: attemptRequestWithKeys.simps [of net t keyIndex keys st])
          from "1.prems" have r: "outcome ?d = Rejected"
            by (simp add: eq sent_def refreshedWith_def)
          have nr: "refreshes ?d = []" using cleared by (rule attempt_cleared_no_refresh)
          from "1.IH"(1) [OF inr failed last True r] nr have "tried ?d = ?p"
            by (simp add: exhausted_def)
          with nr True inr dr show ?thesis
            by (auto simp add: eq sent_def refreshedWith_def exhausted_def
                intro!: bexI [of _ keyIndex])
        next
          case False
          let ?d = "attemptRequestWithKeys net (t + 1) (keyIndex + 1) keys (refresh net t ?k st)"
          have eq: "attemptRequestWithKeys net t keyIndex keys st
              = sent ?k (refreshedWith ?p ?d)"
            using inr failed last False
            by (simp add: attemptRequestWithKeys.simps [of net t keyIndex keys st])
          from "1.prems" have r: "outcome ?d = Rejected"
            by (simp add: eq sent_def refreshedWith_def)
          have nr: "refreshes ?d = []" using cleared by (rule attempt_cleared_no_refresh)
          from "1.IH"(2) [OF inr failed last False r] nr
          have "tried ?d = drop (Suc keyIndex) keys"
            by (simp add: exhausted_def)
          with nr False dr show ?thesis
            by (simp add: eq sent_def refreshedWith_def exhausted_def)
        qed
      next
        case False
        let ?d = "attemptRequestWithKeys net (t + 1) (keyIndex + 1) keys st"
        have eq: "attemptRequestWithKeys net t keyIndex keys st = sent ?k ?d"
          using inr failed False
          by (simp add: attemptRequestWithKeys.simps [of net t keyIndex keys st])
        from "1.prems" have r: "outcome ?d = Rejected"
          by (simp add: eq sent_def)
        note ih = "1.IH"(3) [OF inr failed False r]
        show ?thesis
        proof (cases "refreshes ?d")
          case Nil
          with ih dr show ?thesis by (simp add: eq sent_def exhausted_def)
        next
          case (Cons P others)
          show ?thesis
          proof (cases "P = []")
            case True
            with ih Cons dr show ?thesis by (simp add: eq sent_def exhausted_def)
          next
            case ne: False
            from ih Cons ne obtain m where m: "Suc keyIndex \<le> m" "m < length keys"
              and tr: "tried ?d = take (Suc m - Suc keyIndex) (drop (Suc keyIndex) keys) @ P"
              and others: "others = []"
              by (auto simp add: exhausted_def)
            from m have "Suc m - keyIndex = Suc (Suc m - Suc keyIndex)" by simp
            then have "take (Suc m - keyIndex) (drop keyIndex keys)
                = ?k # take (Suc m - Suc keyIndex) (drop (Suc keyIndex) keys)"
              by (simp add: dr)
            with tr have "tried (sent ?k ?d) = take (Suc m - keyIndex) (drop keyIndex keys) @ P"
              by (simp add: sent_def)
            moreover from m have "m \<in> {keyIndex ..< length keys}" by simp
            ultimately show ?thesis
              using Cons ne others by (auto simp add: eq exhausted_def sent_def)
          qed
        qed
      qed
    qed
  qed
qed

lemma among_others_alone:
  assumes "alone env"
  shows "length (tried (attemptRequestWithKeys net t keyIndex keys st)) < fuel \<Longrightarrow>
    attemptRequestWithKeysAmongOthers fuel net env t keyIndex keys st
      = Some (attemptRequestWithKeys net t keyIndex keys st)"
proof (induction net t keyIndex keys st arbitrary: fuel rule: attemptRequestWithKeys.induct)
  case (1 net t keyIndex keys st)
  let ?k = "keys ! keyIndex"
  let ?p = "findApiKeys (scriptsAt net t) [?k]"
  from assms have ans: "answered env t" and mw: "meanwhile env t st = st"
    by (simp_all add: alone_def)
  from "1.prems" obtain fuel' where fuel: "fuel = Suc fuel'" by (cases fuel) auto
  show ?case
  proof (cases "keyIndex \<ge> length keys")
    case True
    then show ?thesis
      by (simp add: attemptRequestWithKeys.simps [of net t keyIndex keys st] fuel)
  next
    case inr: False
    show ?thesis
    proof (cases "succeeded (respond net t ?k)")
      case True
      with inr ans mw show ?thesis
        by (simp add: attemptRequestWithKeys.simps [of net t keyIndex keys st] fuel)
    next
      case failed: False
      show ?thesis
      proof (cases "Some ?k = lastSuccessfulKey st")
        case last: True
        show ?thesis
        proof (cases "?p \<noteq> []")
          case True
          let ?d = "attemptRequestWithKeys net (t + 1) 0 ?p (refresh net t ?k st)"
          have eq: "attemptRequestWithKeys net t keyIndex keys st
              = sent ?k (refreshedWith ?p ?d)"
            using inr failed last True
            by (simp add: attemptRequestWithKeys.simps [of net t keyIndex keys st])
          from "1.prems" have "length (tried ?d) < fuel'"
            by (simp add: eq fuel sent_def refreshedWith_def)
          from "1.IH"(1) [OF inr failed last True this] inr failed last True ans mw
          show ?thesis by (simp add: eq fuel)
        next
          case False
          let ?d = "attemptRequestWithKeys net (t + 1) (keyIndex + 1) keys (refresh net t ?k st)"
          have eq: "attemptRequestWithKeys net t keyIndex keys st
              = sent ?k (refreshedWith ?p ?d)"
            using inr failed last False
            by (simp add: attemptRequestWithKeys.simps [of net t keyIndex keys st])
          from "1.prems" have "length (tried ?d) < fuel'"
            by (simp add: eq fuel sent_def refreshedWith_def)
          from "1.IH"(2) [OF inr failed last False this] inr failed last False ans mw
          show ?thesis by (simp add: eq fuel)
        qed
      next
        case False
        let ?d = "attemptRequestWithKeys net (t + 1) (keyIndex + 1) keys st"
        have eq: "attemptRequestWithKeys net t keyIndex keys st = sent ?k ?d"
          using inr failed False
          by (simp add: attemptRequestWithKeys.simps [of net t keyIndex keys st])
        from "1.prems" have "length (tried ?d) < fuel'"
          by (simp add: eq fuel sent_def)
        from "1.IH"(3) [OF inr failed False this] inr failed False ans mw
        show ?thesis by (simp add: eq fuel)
      qed
    qed
  qed
qed

text \<open>
  Claim C10, for a dispatch that runs alone: every request is answered and no other call
  writes the two variables meanwhile. Then the promise is settled, after at most one
  refresh of the pool and at most as many requests as the list it starts with has keys
  plus the refreshed pool has keys. No request but the last succeeds. The promise is
  resolved with the text of the last response, its key being then the last successful
  key; or it is rejected, after every request has failed and the keys are exhausted.
\<close>

theorem dispatch_bounded_alone:
  assumes "alone env"
  shows
    "let d = attemptRequestWithKeys net t 0 keys st in
       (\<forall>fuel. length (tried d) < fuel \<longrightarrow>
          attemptRequestWithKeysAmongOthers fuel net env t 0 keys st = Some d) \<and>
       length (refreshes d) \<le> 1 \<and>
       length (tried d) \<le> length keys + sum_list (map length (refreshes d)) \<and>
       (\<forall>j < length (tried d).
          succeeded (respond net (t + j) (tried d ! j))
          \<longleftrightarrow> (outcome d \<noteq> Rejected \<and> Suc j = length (tried d))) \<and>
       (case outcome d of
          Resolved body \<Rightarrow>
            tried d \<noteq> [] \<and>
            body = responseText (respond net (t + length (tried d) - 1) (last (tried d))) \<and>
            lastSuccessfulKey (pool d) = Some (last (tried d))
        | Rejected \<Rightarrow> exhausted 0 keys d)"
proof -
  define d where "d = attemptRequestWithKeys net t 0 keys st"
  have a: "\<forall>fuel. length (tried d) < fuel \<longrightarrow>
      attemptRequestWithKeysAmongOthers fuel net env t 0 keys st = Some d"
    unfolding d_def using among_others_alone [OF assms] by blast
  have b: "length (refreshes d) \<le> 1"
    unfolding d_def using attempt_bounds [of net t 0 keys st] by (simp split: if_splits)
  have c: "length (tried d) \<le> length keys + sum_list (map length (refreshes d))"
    unfolding d_def using attempt_bounds [of net t 0 keys st] by simp
  have e: "\<forall>j < length (tried d).
      succeeded (respond net (t + j) (tried d ! j))
      \<longleftrightarrow> (outcome d \<noteq> Rejected \<and> Suc j = length (tried d))"
    unfolding d_def using attempt_only_last_succeeds [of _ net t 0 keys st] by blast
  have f: "case outcome d of
      Resolved body \<Rightarrow>
        tried d \<noteq> [] \<and>
        body = responseText (respond net (t + length (tried d) - 1) (last (tried d))) \<and>
        lastSuccessfulKey (pool d) = Some (last (tried d))
    | Rejected \<Rightarrow> exhausted 0 keys d"
  proof (cases "outcome d")
    case (Resolved body)
    with attempt_outcome [of net t 0 keys st] attempt_resolved_body [of net t 0 keys st body]
    show ?thesis unfolding d_def by simp
  next
    case Rejected
    with attempt_rejected_exhausted [of net t 0 keys st] show ?thesis
      unfolding d_def by simp
  qed
  from a b c e f show ?thesis
    unfolding Let_def d_def [symmetric] by blast
qed

lemma exampleNet_without_OLD:
  "findApiKeys (scriptsAt exampleNet t) [''AIzaSyOLD''] = [''AIzaSyNEW'']"
  by (simp add: exampleNet_def scan_eval)

lemma exampleNet_respond:
  "succeeded (respond exampleNet t k) = (k = ''AIzaSyNEW'')"
  "responseText (respond exampleNet t ''AIzaSyNEW'') = ''ok''"
  by (simp_all add: exampleNet_def succeeded_def responseText_def)

lemma exampleNet_dispatch:
  "attemptRequestWithKeys exampleNet 0 0 [''AIzaSyOLD'', ''AIzaSyB'']
     \<lparr>cachedApiKeys = Some [''AIzaSyOLD'', ''AIzaSyB''],
        lastSuccessfulKey = Some ''AIzaSyOLD''\<rparr> =
   \<lparr>outcome = Resolved ''ok'',
      pool = \<lparr>cachedApiKeys = Some [''AIzaSyNEW''], lastSuccessfulKey = Some ''AIzaSyNEW''\<rparr>,
      tried = [''AIzaSyOLD'', ''AIzaSyNEW''],
      refreshes = [[''AIzaSyNEW'']]\<rparr>"
  by (simp add: attemptRequestWithKeys.simps exampleNet_without_OLD exampleNet_respond
      refresh_def sent_def refreshedWith_def)

theorem dispatch_bounded_alone_witness:
  "alone undisturbed \<and>
   attemptRequestWithKeysAmongOthers 3 exampleNet undisturbed 0 0 [''AIzaSyOLD'', ''AIzaSyB'']
     \<lparr>cachedApiKeys = Some [''AIzaSyOLD'', ''AIzaSyB''],
        lastSuccessfulKey = Some ''AIzaSyOLD''\<rparr> =
   Some \<lparr>outcome = Resolved ''ok'',
         pool = \<lparr>cachedApiKeys = Some [''AIzaSyNEW''],
                  lastSuccessfulKey = Some ''AIzaSyNEW''\<rparr>,
         tried = [''AIzaSyOLD'', ''AIzaSyNEW''],
         refreshes = [[''AIzaSyNEW'']]\<rparr>"
proof -
  have a: "alone undisturbed" by (simp add: alone_def undisturbed_def)
  note th = dispatch_bounded_alone [OF a, of exampleNet 0 "[''AIzaSyOLD'', ''AIzaSyB'']"
      "\<lparr>cachedApiKeys = Some [''AIzaSyOLD'', ''AIzaSyB''],
         lastSuccessfulKey = Some ''AIzaSyOLD''\<rparr>",
      unfolded Let_def exampleNet_dispatch, THEN conjunct1, rule_format, of 3]
  have "length (tried \<lparr>outcome = Resolved ''ok'',
      pool = \<lparr>cachedApiKeys = Some [''AIzaSyNEW''], lastSuccessfulKey = Some ''AIzaSyNEW''\<rparr>,
      tried = [''AIzaSyOLD'', ''AIzaSyNEW''],
      refreshes = [[''AIzaSyNEW'']]\<rparr>) < 3"
    by simp
  from th [OF this] a show ?thesis by blast
qed

text \<open>
  Claim C10 as stated, without these conditions. A dispatch starts with the keys
  \<^verbatim>\<open>AIzaSyA\<close> (the last successful one) and \<^verbatim>\<open>AIzaSyB\<close>, both in the page, and all its
  requests fail. It refreshes after the first; while the second and the third are under
  way, other calls succeed with the very key and set \<^verbatim>\<open>lastSuccessfulKey\<close> again, so it
  refreshes after each: three refreshes and four requests, with a list of two keys and a
  refreshed pool of one. And when a request is never answered, the promise is never
  settled.
\<close>

theorem dispatch_among_others_refreshes_again:
  "keysToTry trustingA [''AIzaSyB'', ''AIzaSyA''] = [''AIzaSyA'', ''AIzaSyB''] \<and>
   attemptRequestWithKeysAmongOthers 5 refusingNet otherCalls 0 0
     [''AIzaSyA'', ''AIzaSyB''] trustingA =
   Some \<lparr>outcome = Rejected,
         pool = \<lparr>cachedApiKeys = Some [''AIzaSyB''], lastSuccessfulKey = None\<rparr>,
         tried = [''AIzaSyA'', ''AIzaSyB'', ''AIzaSyA'', ''AIzaSyB''],
         refreshes = [[''AIzaSyB''], [''AIzaSyA''], [''AIzaSyB'']]\<rparr> \<and>
   (\<forall>fuel. attemptRequestWithKeysAmongOthers fuel refusingNet unanswered 0 0
      [''AIzaSyA'', ''AIzaSyB''] trustingA = None)"
proof -
  have "keysToTry trustingA [''AIzaSyB'', ''AIzaSyA''] = [''AIzaSyA'', ''AIzaSyB'']"
    by (simp add: keysToTry_def trustingA_def)
  moreover have "attemptRequestWithKeysAmongOthers 5 refusingNet otherCalls 0 0
     [''AIzaSyA'', ''AIzaSyB''] trustingA =
   Some \<lparr>outcome = Rejected,
         pool = \<lparr>cachedApiKeys = Some [''AIzaSyB''], lastSuccessfulKey = None\<rparr>,
         tried = [''AIzaSyA'', ''AIzaSyB'', ''AIzaSyA'', ''AIzaSyB''],
         refreshes = [[''AIzaSyB''], [''AIzaSyA''], [''AIzaSyB'']]\<rparr>"
    by (simp add: numeral_eq_Suc among_eval)
  moreover have "attemptRequestWithKeysAmongOthers fuel refusingNet unanswered 0 0
      [''AIzaSyA'', ''AIzaSyB''] trustingA = None" for fuel
    by (cases fuel) (simp_all add: unanswered_def)
  ultimately show ?thesis by blast
qed

section \<open>Prompt conversion (new-prompt.ts)\<close>

text \<open>
  The values the converter emits. \<^verbatim>\<open>undefined\<close> is written \<open>JNull\<close>: the code compares
  with \<^verbatim>\<open>!= null\<close>, which takes the two for one, and \<^verbatim>\<open>JSON.stringify\<close> writes an
  \<^verbatim>\<open>undefined\<close> array entry as \<^verbatim>\<open>null\<close>. Equal values have equal serialisations.
\<close>

datatype json =
  JNull | JBool bool | JNum rat | JStr string | JArr "json list" | JObj "(string \<times> json) list"

text \<open>
  A response schema as the code reads it: \<^verbatim>\<open>type\<close> (a string, any case), and the optional
  \<^verbatim>\<open>description\<close>, \<^verbatim>\<open>nullable\<close>, \<^verbatim>\<open>enum\<close>, \<^verbatim>\<open>items\<close>, \<^verbatim>\<open>properties\<close> (in the order
  \<^verbatim>\<open>Object.entries\<close> gives them) and \<^verbatim>\<open>required\<close>.
\<close>

datatype schema =
  Schema (schemaType: string) (description: "string option") (nullable: "bool option")
    (enumOf: "string list option") (items: "schema option")
    (properties: "(string \<times> schema) list option") (required: "string list option")

text \<open>
  The table \<^verbatim>\<open>SCHEMA_TYPE_TO_NUMBER\<close>, \<open>None\<close> for \<^verbatim>\<open>undefined\<close>. (What an object
  inherits, as under the name \<^verbatim>\<open>constructor\<close>, is left aside: no type of a schema is such
  a name.)
\<close>

definition SCHEMA_TYPE_TO_NUMBER :: "string \<Rightarrow> nat option" where
  "SCHEMA_TYPE_TO_NUMBER t =
     (if t = ''string'' then Some 1 else if t = ''number'' then Some 2
      else if t = ''integer'' then Some 3 else if t = ''boolean'' then Some 4
      else if t = ''array'' then Some 5 else if t = ''object'' then Some 6 else None)"

text \<open>
  \<^verbatim>\<open>for (let i = schema.length - 1; i >= 0; i--) { if (schema[i] != null) {
  schema.splice(i + 1, schema.length - i - 1); break; } }\<close>, counting \<open>i + 1\<close> down.
\<close>

fun trimLoop :: "nat \<Rightarrow> json list \<Rightarrow> json list" where
  "trimLoop 0 schema = schema"
| "trimLoop (Suc i) schema =
     (if schema ! i \<noteq> JNull then take (Suc i) schema else trimLoop i schema)"

definition trimTrailingNulls :: "json list \<Rightarrow> json list" where
  "trimTrailingNulls schema = trimLoop (length schema) schema"

definition orNull :: "('a \<Rightarrow> json) \<Rightarrow> 'a option \<Rightarrow> json" where
  "orNull f x = (case x of None \<Rightarrow> JNull | Some v \<Rightarrow> f v)"

definition strings :: "string list \<Rightarrow> json" where
  "strings xs = JArr (map JStr xs)"

text \<open>
  \<^verbatim>\<open>convertResponseSchema\<close>; \<open>schemaArray\<close> is the array \<^verbatim>\<open>schema\<close> before the loop.
  The type is compared in lower case (\<^verbatim>\<open>toLocaleLowerCase\<close>, taken in a locale without
  special casing), but \<^verbatim>\<open>required\<close> is kept only when \<^verbatim>\<open>responseSchema.type\<close> itself is
  \<^verbatim>\<open>"object"\<close>. Reading \<^verbatim>\<open>items\<close> or \<^verbatim>\<open>properties\<close> that are not there throws a
  \<^verbatim>\<open>TypeError\<close>.
\<close>

fun convertResponseSchema :: "schema \<Rightarrow> jsError + json"
  and schemaArray :: "schema \<Rightarrow> jsError + json list"
  and convertItems :: "schema option \<Rightarrow> jsError + json"
  and convertEntries :: "(string \<times> schema) list \<Rightarrow> jsError + json list"
where
  "convertResponseSchema s =
     (case schemaArray s of Inl e \<Rightarrow> Inl e
      | Inr schema \<Rightarrow> Inr (JArr (trimTrailingNulls schema)))"
| "schemaArray (Schema ty de nu en it pr re) =
     (case (if toLowerCase ty = ''array'' then convertItems it else Inr JNull) of
        Inl e \<Rightarrow> Inl e
      | Inr itemsField \<Rightarrow>
          (case (if toLowerCase ty = ''object''
                 then (case pr of None \<Rightarrow> Inl TypeError
                       | Some ps \<Rightarrow>
                           (case convertEntries ps of Inl e \<Rightarrow> Inl e
                            | Inr es \<Rightarrow> Inr (JArr es)))
                 else Inr JNull) of
             Inl e \<Rightarrow> Inl e
           | Inr propertiesField \<Rightarrow>
               Inr [orNull (\<lambda>n. JNum (of_nat n)) (SCHEMA_TYPE_TO_NUMBER (toLowerCase ty)),
                    JNull,
                    orNull JStr de,
                    orNull JBool nu,
                    (if toLowerCase ty = ''string'' then orNull strings en else JNull),
                    itemsField,
                    propertiesField,
                    (if ty = ''object'' then orNull strings re else JNull)]))"
| "convertItems None = Inl TypeError"
| "convertItems (Some s) = convertResponseSchema s"
| "convertEntries [] = Inr []"
| "convertEntries ((k, v) # rest) =
     (case convertResponseSchema v of Inl e \<Rightarrow> Inl e
      | Inr j \<Rightarrow>
          (case convertEntries rest of Inl e \<Rightarrow> Inl e
           | Inr js \<Rightarrow> Inr (JArr [JStr k, j] # js)))"


text \<open>
  \<^verbatim>\<open>convertMessage\<close>. A \<^verbatim>\<open>Part\<close> is a \<^verbatim>\<open>TextPart\<close>, an object with the one field
  \<^verbatim>\<open>text\<close>.
\<close>

datatype Part = TextPart string

fun convertMessage :: "string \<Rightarrow> Part \<Rightarrow> json" where
  "convertMessage role (TextPart txt) =
     JArr [JStr txt, JNull, JNull, JNull, JNull, JNull, JNull, JNull,
           JStr (if role = ''user'' then ''user''
                 else if role = ''model'' \<or> role = ''assistant'' then ''model''
                 else ''user'')]"

definition UNKNOWN_PAD :: json where
  "UNKNOWN_PAD =
     JArr [JArr [JNull, JNull, JNum 7, JNum 1],
           JArr [JNull, JNull, JNum 8, JNum 2],
           JArr [JNull, JNull, JNum 9, JNum 3],
           JArr [JNull, JNull, JNum 10, JNum 4],
           JArr [JNull, JNull, JNum 11, JNum 5]]"

text \<open>
  The documents, with the fields the converter reads. \<^verbatim>\<open>GenerationConfig\<close> and
  \<^verbatim>\<open>RunSettings\<close> name these fields alike; \<^verbatim>\<open>RunSettings\<close> has a \<^verbatim>\<open>model\<close> of its own,
  written \<open>runModel\<close> since the request has a field \<^verbatim>\<open>model\<close> too. A document is the parsed
  object, of type \<^verbatim>\<open>GenerateContentRequest | AIStudioFile\<close>: each field is there or not,
  and a field that is there has the type its interface gives it (\<^verbatim>\<open>systemInstruction\<close>, of
  a different type in the two interfaces, is any value). \<open>chunkedPrompt\<close> is the list
  \<^verbatim>\<open>chunkedPrompt.chunks\<close>.
\<close>

record GenerationConfig =
  temperature :: "rat option"
  topP :: "rat option"
  topK :: "rat option"
  maxOutputTokens :: "rat option"
  responseMimeType :: "string option"
  responseSchema :: "schema option"

record RunSettings = GenerationConfig +
  runModel :: "string option"

datatype Content = Content string "Part list"

datatype ChunkedMessage = ChunkedMessage string string

record document =
  generationConfig :: "GenerationConfig option"
  contents :: "Content list option"
  model :: "string option"
  runSettings :: "RunSettings option"
  chunkedPrompt :: "ChunkedMessage list option"
  systemInstruction :: "json option"

text \<open>What \<^verbatim>\<open>x ? a : b\<close> takes for true.\<close>

fun truthy :: "json \<Rightarrow> bool" where
  "truthy JNull = False"
| "truthy (JBool b) = b"
| "truthy (JNum n) = (n \<noteq> 0)"
| "truthy (JStr s) = (s \<noteq> [])"
| "truthy (JArr xs) = True"
| "truthy (JObj kvs) = True"

text \<open>
  The arrays \<^verbatim>\<open>title\<close> and \<^verbatim>\<open>outside\<close>, which the two converters build alike:
  \<^verbatim>\<open>outside\<close> takes the configuration array, the title, the system instruction and the
  list of messages; \<open>userInput\<close> is the array that follows the messages.
\<close>

definition title :: "string \<Rightarrow> json" where
  "title promptName =
     JArr [JStr promptName, JNull, JNull, JNull, JNull, JNull, JNull, JNull, JNull, JNull,
           JArr []]"

definition userInput :: json where
  "userInput = JArr [JArr [JStr [], JNull, JNull, JNull, JNull, JNull, JNull, JNull, JStr ''user'']]"

definition outside :: "json \<Rightarrow> json \<Rightarrow> json option \<Rightarrow> json \<Rightarrow> json" where
  "outside config ttl instruction messages =
     JArr [JArr [JNull, JNull, JNull, config, ttl,
                 JNull, JNull, JNull, JNull, JNull, JNull, JNull,
                 (case instruction of
                    None \<Rightarrow> JArr []
                  | Some i \<Rightarrow> if truthy i then JArr [i] else JArr []),
                 JArr [messages, userInput]]]"

fun contentMessages :: "Content \<Rightarrow> json list" where
  "contentMessages (Content role parts) = map (\<lambda>part. convertMessage role part) parts"

fun chunkMessage :: "ChunkedMessage \<Rightarrow> json" where
  "chunkMessage (ChunkedMessage role txt) = convertMessage role (TextPart txt)"

text \<open>
  \<^verbatim>\<open>convertPromptAPI\<close>. \<open>Option.bind c f\<close> is \<^verbatim>\<open>c?.f\<close>. The schema is converted while the
  configuration array is built, and \<^verbatim>\<open>generationRequest.contents.map\<close> throws when there
  are no \<^verbatim>\<open>contents\<close>.
\<close>

definition convertPromptAPI :: "string \<Rightarrow> document \<Rightarrow> jsError + json" where
  "convertPromptAPI promptName generationRequest =
     (case (case Option.bind (generationConfig generationRequest) responseSchema of
              None \<Rightarrow> Inr JNull
            | Some s \<Rightarrow> convertResponseSchema s) of
        Inl e \<Rightarrow> Inl e
      | Inr schemaField \<Rightarrow>
          (case contents generationRequest of
             None \<Rightarrow> Inl TypeError
           | Some cs \<Rightarrow>
               Inr (outside
                 (JArr [orNull JNum (Option.bind (generationConfig generationRequest) temperature),
                        JNull,
                        (case model generationRequest of
                           None \<Rightarrow> JNull
                         | Some m \<Rightarrow> if m \<noteq> [] then JStr (''models/'' @ m) else JNull),
                        JNull,
                        orNull JNum (Option.bind (generationConfig generationRequest) topP),
                        orNull JNum (Option.bind (generationConfig generationRequest) topK),
                        orNull JNum (Option.bind (generationConfig generationRequest) maxOutputTokens),
                        UNKNOWN_PAD,
                        (case Option.bind (generationConfig generationRequest) responseMimeType of
                           Some mime \<Rightarrow> JStr mime
                         | None \<Rightarrow>
                             if Option.bind (generationConfig generationRequest) responseSchema \<noteq> None
                             then JStr ''application/json'' else JStr ''text/plain''),
                        JNum 0,
                        schemaField,
                        JNull, JNull, JNum 1, JNum 0, JNull, JNull, JNum 0, JNum 0])
                 (title promptName)
                 (systemInstruction generationRequest)
                 (JArr (concat (map contentMessages cs))))))"

text \<open>
  \<^verbatim>\<open>convertPromptStudio\<close>. Without \<^verbatim>\<open>chunkedPrompt\<close> the message list is \<^verbatim>\<open>undefined\<close>.
\<close>

definition convertPromptStudio :: "string \<Rightarrow> document \<Rightarrow> jsError + json" where
  "convertPromptStudio promptName generationRequest =
     (case (case Option.bind (runSettings generationRequest) responseSchema of
              None \<Rightarrow> Inr JNull
            | Some s \<Rightarrow> convertResponseSchema s) of
        Inl e \<Rightarrow> Inl e
      | Inr schemaField \<Rightarrow>
          Inr (outside
            (JArr [orNull JNum (Option.bind (runSettings generationRequest) temperature),
                   JNull,
                   orNull JStr (Option.bind (runSettings generationRequest) runModel),
                   JNull,
                   orNull JNum (Option.bind (runSettings generationRequest) topP),
                   orNull JNum (Option.bind (runSettings generationRequest) topK),
                   orNull JNum (Option.bind (runSettings generationRequest) maxOutputTokens),
                   UNKNOWN_PAD,
                   (case Option.bind (runSettings generationRequest) responseMimeType of
                      Some mime \<Rightarrow> JStr mime
                    | None \<Rightarrow>
                        if Option.bind (runSettings generationRequest) responseSchema \<noteq> None
                        then JStr ''application/json'' else JStr ''text/plain''),
                   JNum 0,
                   schemaField,
                   JNull, JNull, JNum 1, JNum 0, JNull, JNull, JNum 0, JNum 0])
            (title promptName)
            (systemInstruction generationRequest)
            (case chunkedPrompt generationRequest of
               None \<Rightarrow> JNull
             | Some chunks \<Rightarrow> JArr (map chunkMessage chunks))))"

text \<open>
  \<^verbatim>\<open>convertPromptData\<close>: \<^verbatim>\<open>"generationConfig" in generationRequest\<close> decides. (On a
  value that is not an object, \<^verbatim>\<open>in\<close> throws a \<^verbatim>\<open>TypeError\<close>; a document here is an
  object.)
\<close>

definition convertPromptData :: "string \<Rightarrow> document \<Rightarrow> jsError + json" where
  "convertPromptData promptName generationRequest =
     (if generationConfig generationRequest \<noteq> None
      then convertPromptAPI promptName generationRequest
      else convertPromptStudio promptName generationRequest)"

definition emptyDocument :: document where
  "emptyDocument =
     \<lparr>generationConfig = None, contents = None, model = None, runSettings = None,
      chunkedPrompt = None, systemInstruction = None\<rparr>"

subsection \<open>Documents that say the same in the two shapes\<close>

text \<open>
  The turns of an API request as chunks: one chunk for each part, in order, with the role
  of its content.
\<close>

fun partsAsChunks :: "Content \<Rightarrow> ChunkedMessage list" where
  "partsAsChunks (Content role parts) = map (\<lambda>part. case part of TextPart txt \<Rightarrow> ChunkedMessage role txt) parts"

definition sameSettings :: "GenerationConfig \<Rightarrow> RunSettings \<Rightarrow> bool" where
  "sameSettings config settings \<longleftrightarrow>
     temperature config = temperature settings \<and> topP config = topP settings \<and>
     topK config = topK settings \<and> maxOutputTokens config = maxOutputTokens settings \<and>
     responseMimeType config = responseMimeType settings \<and>
     responseSchema config = responseSchema settings"

text \<open>
  The same prompt in the two shapes, every field with the same value: the configuration
  fields, the model, the system instruction, and the turns.
\<close>

definition samePrompt :: "document \<Rightarrow> document \<Rightarrow> bool" where
  "samePrompt api studio \<longleftrightarrow>
     (case (generationConfig api, contents api, runSettings studio, chunkedPrompt studio) of
        (Some config, Some turns, Some settings, Some chunks) \<Rightarrow>
          generationConfig studio = None \<and>
          sameSettings config settings \<and>
          runModel settings = model api \<and>
          systemInstruction studio = systemInstruction api \<and>
          chunks = concat (map partsAsChunks turns)
      | _ \<Rightarrow> False)"

text \<open>
  The same, but for the model: the Studio file names it in full, \<^verbatim>\<open>models/\<close> and the name
  the API request gives, and names none when the request gives none or an empty one.
\<close>

definition agreeingPrompts :: "document \<Rightarrow> document \<Rightarrow> bool" where
  "agreeingPrompts api studio \<longleftrightarrow>
     (case (generationConfig api, contents api, runSettings studio, chunkedPrompt studio) of
        (Some config, Some turns, Some settings, Some chunks) \<Rightarrow>
          generationConfig studio = None \<and>
          sameSettings config settings \<and>
          runModel settings =
            (case model api of
               None \<Rightarrow> None
             | Some m \<Rightarrow> if m \<noteq> [] then Some (''models/'' @ m) else None) \<and>
          systemInstruction studio = systemInstruction api \<and>
          chunks = concat (map partsAsChunks turns)
      | _ \<Rightarrow> False)"

definition apiExample :: document where
  "apiExample =
     \<lparr>generationConfig = Some \<lparr>temperature = Some 1, topP = None, topK = None,
        maxOutputTokens = None, responseMimeType = None, responseSchema = None\<rparr>,
      contents = Some [Content ''user'' [TextPart ''Hi'']],
      model = Some ''gemini-2.0-flash'',
      runSettings = None, chunkedPrompt = None, systemInstruction = None\<rparr>"

definition studioExample :: "string \<Rightarrow> document" where
  "studioExample m =
     \<lparr>generationConfig = None, contents = None, model = None,
      runSettings = Some \<lparr>temperature = Some 1, topP = None, topK = None,
        maxOutputTokens = None, responseMimeType = None, responseSchema = None,
        runModel = Some m\<rparr>,
      chunkedPrompt = Some [ChunkedMessage ''user'' ''Hi''],
      systemInstruction = None\<rparr>"

lemmas convert_eval =
  convertPromptData_def convertPromptAPI_def convertPromptStudio_def outside_def orNull_def

lemma chunkMessage_partsAsChunks:
  "map chunkMessage (concat (map partsAsChunks turns)) = concat (map contentMessages turns)"
proof (induction turns)
  case Nil
  show ?case by simp
next
  case (Cons c cs)
  obtain role parts where c: "c = Content role parts" by (cases c)
  have "map chunkMessage (partsAsChunks c) = contentMessages c"
    unfolding c by (induction parts) (auto split: Part.splits)
  with Cons show ?case by simp
qed

text \<open>
  Claim C7, at the document \<^verbatim>\<open>{}\<close>, which has none of the fields. It is not an API
  request and not a Studio file, and \<^verbatim>\<open>convertPromptData\<close> takes the Studio branch and
  returns a whole payload for it: a value that counts as true, where the caller
  (\<^verbatim>\<open>if (!convertedData)\<close>, "This JSON format is not recognized as a valid prompt") looks
  for none.
\<close>

theorem convertPromptData_unrecognised:
  "convertPromptData promptName emptyDocument =
     Inr (JArr [JArr [JNull, JNull, JNull,
                      JArr [JNull, JNull, JNull, JNull, JNull, JNull, JNull, UNKNOWN_PAD,
                            JStr ''text/plain'', JNum 0, JNull, JNull, JNull, JNum 1, JNum 0,
                            JNull, JNull, JNum 0, JNum 0],
                      title promptName,
                      JNull, JNull, JNull, JNull, JNull, JNull, JNull,
                      JArr [],
                      JArr [JNull, userInput]]])
   \<and> (case convertPromptData promptName emptyDocument of
        Inr payload \<Rightarrow> truthy payload | Inl e \<Rightarrow> False)"
  by (simp add: convert_eval emptyDocument_def)

lemma outside_truthy: "truthy (outside config ttl instruction messages)"
  by (simp add: outside_def)

lemma convertPromptAPI_truthy:
  assumes "convertPromptAPI promptName d = Inr payload"
  shows "truthy payload"
proof (cases "case Option.bind (generationConfig d) responseSchema of
                None \<Rightarrow> Inr JNull | Some s \<Rightarrow> convertResponseSchema s")
  case (Inl e)
  with assms show ?thesis unfolding convertPromptAPI_def by simp
next
  case (Inr schemaField)
  show ?thesis
  proof (cases "contents d")
    case None
    with assms Inr show ?thesis unfolding convertPromptAPI_def by simp
  next
    case (Some cs)
    from assms have "\<exists>c t i m. payload = outside c t i m"
      unfolding convertPromptAPI_def Inr Some by auto
    then show ?thesis using outside_truthy by blast
  qed
qed

lemma convertPromptStudio_truthy:
  assumes "convertPromptStudio promptName d = Inr payload"
  shows "truthy payload"
proof (cases "case Option.bind (runSettings d) responseSchema of
                None \<Rightarrow> Inr JNull | Some s \<Rightarrow> convertResponseSchema s")
  case (Inl e)
  with assms show ?thesis unfolding convertPromptStudio_def by simp
next
  case (Inr schemaField)
  from assms have "\<exists>c t i m. payload = outside c t i m"
    unfolding convertPromptStudio_def Inr by auto
  then show ?thesis using outside_truthy by blast
qed

text \<open>
  More than that: whatever the document, what \<^verbatim>\<open>convertPromptData\<close> returns counts as
  true; and a document without \<^verbatim>\<open>generationConfig\<close> and \<^verbatim>\<open>runSettings\<close> is converted
  without an exception.
\<close>

lemma convertPromptData_truthy:
  "convertPromptData promptName d = Inr payload \<Longrightarrow> truthy payload"
  unfolding convertPromptData_def
  using convertPromptAPI_truthy convertPromptStudio_truthy
  by (simp split: if_splits)

lemma convertPromptData_no_markers:
  assumes "generationConfig d = None" and "runSettings d = None"
  shows "\<exists>payload. convertPromptData promptName d = Inr payload \<and> truthy payload"
  using assms by (simp add: convert_eval)

text \<open>
  Claim C6, with the model named as each shape names it. An API request (with
  \<^verbatim>\<open>generationConfig\<close> and \<^verbatim>\<open>contents\<close>) and a Studio file (without
  \<^verbatim>\<open>generationConfig\<close>, with \<^verbatim>\<open>runSettings\<close> and \<^verbatim>\<open>chunkedPrompt\<close>) that have the same
  configuration fields, the same system instruction and the same turns, the model of
  the file being \<^verbatim>\<open>models/\<close> and the model of the request, are converted to the same
  payload under the same name (or the conversion of the schema throws for both).
\<close>

theorem converters_agree:
  assumes "agreeingPrompts api studio"
  shows "convertPromptData promptName api = convertPromptData promptName studio"
proof -
  from assms obtain config turns settings chunks where
    a: "generationConfig api = Some config" "contents api = Some turns"
       "runSettings studio = Some settings" "chunkedPrompt studio = Some chunks"
    by (auto simp add: agreeingPrompts_def split: option.splits)
  from assms a have
    b: "generationConfig studio = None" "sameSettings config settings"
       "runModel settings =
          (case model api of None \<Rightarrow> None
           | Some m \<Rightarrow> if m \<noteq> [] then Some (''models/'' @ m) else None)"
       "systemInstruction studio = systemInstruction api"
       "chunks = concat (map partsAsChunks turns)"
    by (simp_all add: agreeingPrompts_def)
  from b(2) have
    s: "temperature settings = temperature config" "topP settings = topP config"
       "topK settings = topK config" "maxOutputTokens settings = maxOutputTokens config"
       "responseMimeType settings = responseMimeType config"
       "responseSchema settings = responseSchema config"
    by (simp_all add: sameSettings_def)
  show ?thesis
    by (simp add: convert_eval a b s chunkMessage_partsAsChunks
          split: option.splits sum.splits)
qed

theorem converters_agree_witness:
  "agreeingPrompts apiExample (studioExample ''models/gemini-2.0-flash'')
   \<and> convertPromptData ''Greeting'' apiExample =
       convertPromptData ''Greeting'' (studioExample ''models/gemini-2.0-flash'')
   \<and> convertPromptData ''Greeting'' apiExample =
       Inr (JArr [JArr [JNull, JNull, JNull,
                      JArr [JNum 1, JNull, JStr ''models/gemini-2.0-flash'', JNull, JNull,
                            JNull, JNull, UNKNOWN_PAD,
                            JStr ''text/plain'', JNum 0, JNull, JNull, JNull, JNum 1, JNum 0,
                            JNull, JNull, JNum 0, JNum 0],
                      title ''Greeting'',
                      JNull, JNull, JNull, JNull, JNull, JNull, JNull,
                      JArr [],
                      JArr [JArr [JArr [JStr ''Hi'', JNull, JNull, JNull, JNull, JNull, JNull,
                                        JNull, JStr ''user'']],
                            userInput]]])"
proof -
  have a: "agreeingPrompts apiExample (studioExample ''models/gemini-2.0-flash'')"
    by (simp add: agreeingPrompts_def sameSettings_def apiExample_def studioExample_def)
  have b: "convertPromptData ''Greeting'' apiExample = Inr (JArr [JArr [JNull, JNull, JNull,
                      JArr [JNum 1, JNull, JStr ''models/gemini-2.0-flash'', JNull, JNull,
                            JNull, JNull, UNKNOWN_PAD,
                            JStr ''text/plain'', JNum 0, JNull, JNull, JNull, JNum 1, JNum 0,
                            JNull, JNull, JNum 0, JNum 0],
                      title ''Greeting'',
                      JNull, JNull, JNull, JNull, JNull, JNull, JNull,
                      JArr [],
                      JArr [JArr [JArr [JStr ''Hi'', JNull, JNull, JNull, JNull, JNull, JNull,
                                        JNull, JStr ''user'']],
                            userInput]]])"
    by (simp add: convert_eval apiExample_def)
  from converters_agree [OF a, of "''Greeting''"] a b show ?thesis by blast
qed

text \<open>
  Claim C6 as stated. A request and a file with the same name, configuration fields,
  model \<^verbatim>\<open>gemini-2.0-flash\<close>, no system instruction and the same turn are converted to
  different payloads: the request's model is written \<^verbatim>\<open>models/gemini-2.0-flash\<close>, the
  file's as it is. And with the model named in full in the file, a system instruction
  written as each interface types it, a string in the request and a list of text parts
  in the file, gives different payloads as well.
\<close>

theorem converters_disagree:
  "samePrompt apiExample (studioExample ''gemini-2.0-flash'')
   \<and> convertPromptData ''Greeting'' apiExample \<noteq>
       convertPromptData ''Greeting'' (studioExample ''gemini-2.0-flash'')
   \<and> convertPromptData ''Greeting''
         (apiExample\<lparr>systemInstruction := Some (JStr ''Be brief'')\<rparr>) \<noteq>
       convertPromptData ''Greeting''
         ((studioExample ''models/gemini-2.0-flash'')
            \<lparr>systemInstruction := Some (JArr [JObj [(''text'', JStr ''Be brief'')]])\<rparr>)"
  by (simp add: samePrompt_def sameSettings_def apiExample_def studioExample_def convert_eval)

subsection \<open>The schema array ends with its last value\<close>















text \<open>
  A type outside the six kinds, with no description and no \<^verbatim>\<open>nullable\<close>, gives eight
  \<^verbatim>\<open>null\<close>s, and the loop finds nothing to cut after.
\<close>

lemma convertResponseSchema_unknown_type:
  "convertResponseSchema (Schema ''null'' None None en it pr re) =
     Inr (JArr [JNull, JNull, JNull, JNull, JNull, JNull, JNull, JNull])"
proof -
  have l: "toLowerCase ''null'' = ''null''" by code_simp
  show ?thesis
    by (simp add: SCHEMA_TYPE_TO_NUMBER_def trimTrailingNulls_def orNull_def l)
qed

end
